theory Spec2Isabelle
  imports Main "HOL-Library.Word"
begin

unbundle bit_operations_syntax

section \<open>Constants and machine integers\<close>

text \<open>The two macros at the top of the program source.\<close>

definition INSTRUCTION_ALLOC_COUNT :: nat where
  "INSTRUCTION_ALLOC_COUNT = 1024"

definition BF_MAX_PROGRAM_SIZE :: nat where
  "BF_MAX_PROGRAM_SIZE = 65536"

text \<open>
  The container mixes \<^verbatim>\<open>int\<close> (32 bits, signed) and \<^verbatim>\<open>size_t\<close> (64 bits, unsigned).
  Values of type \<^verbatim>\<open>int\<close> are modelled as \<^typ>\<open>int\<close>, values of type \<^verbatim>\<open>size_t\<close> as
  \<^typ>\<open>nat\<close>; the conversions C inserts are written out. An \<^verbatim>\<open>int\<close> operand of a mixed
  expression is converted to \<^verbatim>\<open>size_t\<close> modulo \<open>2 ^ 64\<close>, \<^verbatim>\<open>size_t\<close> addition wraps
  modulo \<open>2 ^ 64\<close>, and the initialisation \<^verbatim>\<open>int mut_size = size\<close> keeps the low 32 bits
  read as two's complement. Sums of two \<^verbatim>\<open>int\<close>s are exact: on a program within the
  ceiling of 65536 slots every such sum the functions form before an access leaves its
  array is below \<open>2 ^ 31\<close>.
\<close>

definition size_t_of_int :: "int \<Rightarrow> nat" where
  "size_t_of_int k = nat (k mod 2 ^ 64)"

definition size_t_add :: "nat \<Rightarrow> nat \<Rightarrow> nat" where
  "size_t_add a b = (a + b) mod 2 ^ 64"

definition int_of_size_t :: "nat \<Rightarrow> int" where
  "int_of_size_t n =
     (let r = int n mod 2 ^ 32 in if r < 2 ^ 31 then r else r - 2 ^ 32)"

section \<open>Data model\<close>

text \<open>
  Modelled from the spec: \<^verbatim>\<open>enum bf_opcode\<close> is declared in \<^verbatim>\<open>program.h\<close>, which is not
  among the sources. An opcode is the integer value of the enumerator; the eighteen
  enumerators are numbered from 0 in the order of the spec's opcode catalog, which is also
  the order of the cases in \<^verbatim>\<open>bf_program_map_ins_name\<close>. A variable of the enum type can
  hold values that are no enumerator.
\<close>

type_synonym bf_opcode = "32 word"

definition BF_INS_NOP :: bf_opcode where "BF_INS_NOP = 0"
definition BF_INS_IN :: bf_opcode where "BF_INS_IN = 1"
definition BF_INS_OUT :: bf_opcode where "BF_INS_OUT = 2"
definition BF_INS_INC_V :: bf_opcode where "BF_INS_INC_V = 3"
definition BF_INS_DEC_V :: bf_opcode where "BF_INS_DEC_V = 4"
definition BF_INS_ADD_V :: bf_opcode where "BF_INS_ADD_V = 5"
definition BF_INS_SUB_V :: bf_opcode where "BF_INS_SUB_V = 6"
definition BF_INS_INC_P :: bf_opcode where "BF_INS_INC_P = 7"
definition BF_INS_DEC_P :: bf_opcode where "BF_INS_DEC_P = 8"
definition BF_INS_ADD_P :: bf_opcode where "BF_INS_ADD_P = 9"
definition BF_INS_SUB_P :: bf_opcode where "BF_INS_SUB_P = 10"
definition BF_INS_BRANCH_Z :: bf_opcode where "BF_INS_BRANCH_Z = 11"
definition BF_INS_BRANCH_NZ :: bf_opcode where "BF_INS_BRANCH_NZ = 12"
definition BF_INS_JMP :: bf_opcode where "BF_INS_JMP = 13"
definition BF_INS_HALT :: bf_opcode where "BF_INS_HALT = 14"
definition BF_INS_CLEAR :: bf_opcode where "BF_INS_CLEAR = 15"
definition BF_INS_COPY :: bf_opcode where "BF_INS_COPY = 16"
definition BF_INS_MUL :: bf_opcode where "BF_INS_MUL = 17"

definition defined_opcodes :: "bf_opcode list" where
  "defined_opcodes =
     [BF_INS_NOP, BF_INS_IN, BF_INS_OUT, BF_INS_INC_V, BF_INS_DEC_V, BF_INS_ADD_V,
      BF_INS_SUB_V, BF_INS_INC_P, BF_INS_DEC_P, BF_INS_ADD_P, BF_INS_SUB_P,
      BF_INS_BRANCH_Z, BF_INS_BRANCH_NZ, BF_INS_JMP, BF_INS_HALT, BF_INS_CLEAR,
      BF_INS_COPY, BF_INS_MUL]"

text \<open>
  Modelled from the spec: \<^verbatim>\<open>struct bf_instruction\<close>, \<^verbatim>\<open>struct bf_pattern_rule\<close> and
  \<^verbatim>\<open>struct bf_program\<close> are declared in \<^verbatim>\<open>program.h\<close>. The spec gives an instruction an
  opcode and two signed 32-bit operands, a rule an instruction and a bitset of flags, and a
  program its buffer, its logical length and its capacity. The source calls the length
  field \<^verbatim>\<open>size\<close>; it is \<open>size'\<close> here, \<open>size\<close> being a constant of HOL. Both counters are
  taken to be \<^verbatim>\<open>size_t\<close>, the type of \<^verbatim>\<open>new_capacity\<close> in \<^verbatim>\<open>bf_program_grow\<close>.
  The list \<open>ir\<close> holds every allocated slot of the buffer, whether or not it is below the
  logical length.
\<close>

record bf_instruction =
  opcode :: bf_opcode
  argument :: "32 word"
  offset :: "32 word"

record bf_pattern_rule =
  instruction :: bf_instruction
  flags :: "32 word"

record bf_program =
  ir :: "bf_instruction list"
  size' :: nat
  capacity :: nat

text \<open>
  Modelled from the spec: \<^verbatim>\<open>BF_PATTERN_STRICT\<close> (\<^verbatim>\<open>program.h\<close>) and
  \<^verbatim>\<open>bf_utils_check_flag\<close> (\<^verbatim>\<open>utils.h\<close>) are not among the sources. The spec calls
  \<open>flags\<close> a bitset in which \<open>STRICT\<close> asks for operand equality: the flag is one bit,
  and the check tests that every bit of the flag is set.
\<close>

definition BF_PATTERN_STRICT :: "32 word" where
  "BF_PATTERN_STRICT = 1"

definition bf_utils_check_flag :: "32 word \<Rightarrow> 32 word \<Rightarrow> bool" where
  "bf_utils_check_flag fl flag \<longleftrightarrow> fl AND flag = flag"

section \<open>Memory\<close>

text \<open>
  An access outside the array it indexes is undefined behaviour in C. The model makes it
  a value: every function that indexes an array returns \<open>Inl OutOfBounds\<close> from the
  first access that leaves the array, and \<open>Inr\<close> of its result otherwise.
\<close>

datatype fault = OutOfBounds

definition array_read :: "'a list \<Rightarrow> int \<Rightarrow> fault + 'a" where
  "array_read xs k =
     (if 0 \<le> k \<and> k < int (length xs) then Inr (xs ! nat k) else Inl OutOfBounds)"

definition array_write :: "'a list \<Rightarrow> int \<Rightarrow> 'a \<Rightarrow> fault + 'a list" where
  "array_write xs k v =
     (if 0 \<le> k \<and> k < int (length xs) then Inr (xs[nat k := v]) else Inl OutOfBounds)"

text \<open>
  The allocator is the environment of the container. \<^verbatim>\<open>calloc\<close> either fails or returns
  zero-filled memory; \<^verbatim>\<open>realloc\<close> either fails, leaving the old block as it is, or returns
  a block that keeps the old contents up to the smaller of the two sizes and holds
  indeterminate values beyond. An outcome of \<^verbatim>\<open>realloc\<close> is \<open>None\<close> for failure and
  \<open>Some fresh\<close> for success, \<open>fresh k\<close> being the value found in a new slot \<open>k\<close>.
  The all-zero instruction has the opcode numbered 0.
\<close>

type_synonym realloc_outcome = "(nat \<Rightarrow> bf_instruction) option"

definition zero_instruction :: bf_instruction where
  "zero_instruction = \<lparr>opcode = 0, argument = 0, offset = 0\<rparr>"

definition realloc_ir ::
  "realloc_outcome \<Rightarrow> bf_instruction list \<Rightarrow> nat \<Rightarrow> bf_instruction list option" where
  "realloc_ir heap buf n =
     (case heap of
        None \<Rightarrow> None
      | Some fresh \<Rightarrow> Some (map (\<lambda>k. if k < length buf then buf ! k else fresh k) [0..<n]))"

section \<open>The program container\<close>

text \<open>\<^verbatim>\<open>bf_program_create\<close>: the two arguments say whether each \<^verbatim>\<open>calloc\<close> succeeds.\<close>

definition bf_program_create :: "bool \<Rightarrow> bool \<Rightarrow> bf_program option" where
  "bf_program_create program_allocated ir_allocated =
     (if \<not> program_allocated then None
      else if \<not> ir_allocated then None
      else Some \<lparr>ir = replicate INSTRUCTION_ALLOC_COUNT zero_instruction,
                 size' = 0, capacity = INSTRUCTION_ALLOC_COUNT\<rparr>)"

text \<open>
  \<^verbatim>\<open>bf_program_grow\<close> returns its boolean result and the program as the call leaves it.
  \<open>clamped\<close> is the capacity the function asks \<^verbatim>\<open>realloc\<close> for, or \<open>None\<close> where it
  jumps to \<^verbatim>\<open>error1\<close> before the call.
\<close>

definition bf_program_grow :: "realloc_outcome \<Rightarrow> bf_program \<Rightarrow> bool \<times> bf_program" where
  "bf_program_grow heap program =
     (let new_capacity = size_t_add (capacity program) INSTRUCTION_ALLOC_COUNT;
          clamped =
            (if new_capacity > BF_MAX_PROGRAM_SIZE then
               (if capacity program < BF_MAX_PROGRAM_SIZE then Some BF_MAX_PROGRAM_SIZE
                else None)
             else Some new_capacity)
      in case clamped of
           None \<Rightarrow> (False, program)
         | Some new_capacity \<Rightarrow>
             (case realloc_ir heap (ir program) new_capacity of
                None \<Rightarrow> (False, program)
              | Some resized_ir \<Rightarrow>
                  (True, program\<lparr>ir := resized_ir, capacity := new_capacity\<rparr>)))"

definition bf_program_append ::
  "realloc_outcome \<Rightarrow> bf_program \<Rightarrow> bf_instruction \<Rightarrow> fault + (bool \<times> bf_program)" where
  "bf_program_append heap program ins =
     (let (grown, program1) =
            (if size' program \<ge> capacity program then bf_program_grow heap program
             else (True, program))
      in if \<not> grown then Inr (False, program1)
         else case array_write (ir program1) (int (size' program1)) ins of
                Inl f \<Rightarrow> Inl f
              | Inr buf \<Rightarrow> Inr (True, program1\<lparr>ir := buf, size' := size' program1 + 1\<rparr>))"

text \<open>
  The loop of \<^verbatim>\<open>bf_program_substitute\<close>, from the value \<open>i\<close> of its counter on. The
  comparison \<^verbatim>\<open>i < size\<close> is made in \<^verbatim>\<open>size_t\<close>, the index \<^verbatim>\<open>pos + i\<close> is computed in
  \<^verbatim>\<open>int\<close>.
\<close>

function bf_program_substitute_loop ::
  "bf_instruction list \<Rightarrow> bf_instruction list \<Rightarrow> int \<Rightarrow> nat \<Rightarrow> int
     \<Rightarrow> fault + bf_instruction list" where
  "bf_program_substitute_loop buf repl pos sz i =
     (if size_t_of_int i < sz then
        (case array_read repl i of
           Inl f \<Rightarrow> Inl f
         | Inr ins \<Rightarrow>
             (case array_write buf (pos + i) ins of
                Inl f \<Rightarrow> Inl f
              | Inr buf' \<Rightarrow> bf_program_substitute_loop buf' repl pos sz (i + 1)))
      else Inr buf)"
  by pat_completeness auto
termination
  by (relation "measure (\<lambda>(buf, repl, pos, sz, i). nat (int (length repl) - i))")
     (auto simp: array_read_def split: if_splits)

definition bf_program_substitute ::
  "bf_program \<Rightarrow> bf_instruction list \<Rightarrow> int \<Rightarrow> nat \<Rightarrow> fault + (bool \<times> bf_program)" where
  "bf_program_substitute program repl pos sz =
     (if size_t_add (size_t_of_int pos) sz \<ge> size' program then Inr (False, program)
      else case bf_program_substitute_loop (ir program) repl pos sz 0 of
             Inl f \<Rightarrow> Inl f
           | Inr buf \<Rightarrow> Inr (True, program\<lparr>ir := buf\<rparr>))"

section \<open>The pattern matcher\<close>

text \<open>
  The loop of \<^verbatim>\<open>bf_program_match_sequence\<close> together with the test that follows it, from
  the values \<open>i\<close>, \<open>mut_size\<close> and \<open>real_iters\<close> of its three \<^verbatim>\<open>int\<close> variables on. The
  bound \<^verbatim>\<open>(pos + mut_size) < program->size\<close> and the final \<^verbatim>\<open>real_iters == size\<close> compare
  an \<^verbatim>\<open>int\<close> with a \<^verbatim>\<open>size_t\<close>.
\<close>

function bf_program_match_sequence_loop ::
  "bf_program \<Rightarrow> bf_pattern_rule list \<Rightarrow> int \<Rightarrow> nat \<Rightarrow> int \<Rightarrow> int \<Rightarrow> int \<Rightarrow> fault + int" where
  "bf_program_match_sequence_loop program rules pos sz i mut_size real_iters =
     (if i < mut_size \<and> size_t_of_int (pos + mut_size) < size' program then
        (case array_read (ir program) (pos + i) of
           Inl f \<Rightarrow> Inl f
         | Inr instr \<Rightarrow>
             (case array_read rules real_iters of
                Inl f \<Rightarrow> Inl f
              | Inr rule \<Rightarrow>
                  if opcode instr = BF_INS_NOP then
                    bf_program_match_sequence_loop program rules pos sz
                      (i + 1) (mut_size + 1) real_iters
                  else if opcode instr \<noteq> opcode (instruction rule) then Inr 0
                  else if bf_utils_check_flag (flags rule) BF_PATTERN_STRICT
                          \<and> argument instr \<noteq> argument (instruction rule) then Inr 0
                  else
                    bf_program_match_sequence_loop program rules pos sz
                      (i + 1) mut_size (real_iters + 1)))
      else if size_t_of_int real_iters = sz then Inr mut_size
      else Inr 0)"
  by pat_completeness auto
termination
  by (relation "measure (\<lambda>(program, rules, pos, sz, i, mut_size, real_iters).
                  nat (int (length (ir program)) - (pos + i)))")
     (auto simp: array_read_def split: if_splits)

definition bf_program_match_sequence ::
  "bf_program \<Rightarrow> bf_pattern_rule list \<Rightarrow> int \<Rightarrow> nat \<Rightarrow> fault + int" where
  "bf_program_match_sequence program rules pos sz =
     (if size_t_add (size_t_of_int pos) sz \<ge> size' program \<or> sz \<le> 0 then Inr 0
      else bf_program_match_sequence_loop program rules pos sz 0 (int_of_size_t sz) 0)"

section \<open>Mnemonics\<close>

definition bf_program_map_ins_name :: "bf_opcode \<Rightarrow> string" where
  "bf_program_map_ins_name op =
     (if op = BF_INS_NOP then ''NOP''
      else if op = BF_INS_IN then ''IN''
      else if op = BF_INS_OUT then ''OUT''
      else if op = BF_INS_INC_V then ''INC_V''
      else if op = BF_INS_DEC_V then ''DEC_V''
      else if op = BF_INS_ADD_V then ''ADD_V''
      else if op = BF_INS_SUB_V then ''SUB_V''
      else if op = BF_INS_INC_P then ''INC_P''
      else if op = BF_INS_DEC_P then ''DEC_P''
      else if op = BF_INS_ADD_P then ''ADD_P''
      else if op = BF_INS_SUB_P then ''SUB_P''
      else if op = BF_INS_BRANCH_Z then ''BRANCH_Z''
      else if op = BF_INS_BRANCH_NZ then ''BRANCH_NZ''
      else if op = BF_INS_JMP then ''JMP''
      else if op = BF_INS_HALT then ''HALT''
      else if op = BF_INS_CLEAR then ''CLEAR''
      else if op = BF_INS_COPY then ''COPY''
      else if op = BF_INS_MUL then ''MUL''
      else ''?'')"

section \<open>A caller that appends repeatedly\<close>

text \<open>
  The front-end appends one instruction after another. \<open>bf_program_append_all\<close> runs
  \<^verbatim>\<open>bf_program_append\<close> over a list of instructions, each paired with the outcome of the
  \<^verbatim>\<open>realloc\<close> that call may make, going on after a failed call, and returns how many calls
  returned true together with the final program.
\<close>

fun bf_program_append_all ::
  "(realloc_outcome \<times> bf_instruction) list \<Rightarrow> bf_program \<Rightarrow> fault + (nat \<times> bf_program)" where
  "bf_program_append_all [] program = Inr (0, program)"
| "bf_program_append_all ((heap, ins) # rest) program =
     (case bf_program_append heap program ins of
        Inl f \<Rightarrow> Inl f
      | Inr (ok, program1) \<Rightarrow>
          (case bf_program_append_all rest program1 of
             Inl f \<Rightarrow> Inl f
           | Inr (n, program2) \<Rightarrow> Inr ((if ok then 1 else 0) + n, program2)))"

section \<open>What the matcher looks for\<close>

text \<open>
  An instruction is real when it is not a \<open>NOP\<close>. \<open>real_instructions program pos n\<close>
  lists, in order, the real instructions among the \<open>n\<close> slots of the buffer from index
  \<open>pos\<close> on. \<open>rule_accepts\<close> is the comparison the spec describes between a rule and a
  real instruction: equal opcodes, and equal arguments when the rule is strict.
  \<open>match_at program rules pos size n\<close> says that the span of \<open>n\<close> slots from \<open>pos\<close> is a
  match of the first \<open>size\<close> rules: it ends strictly below the logical length, its last
  slot is real, and its real instructions are accepted by the rules, one by one.
\<close>

definition is_real :: "bf_instruction \<Rightarrow> bool" where
  "is_real ins \<longleftrightarrow> opcode ins \<noteq> BF_INS_NOP"

definition real_instructions :: "bf_program \<Rightarrow> int \<Rightarrow> int \<Rightarrow> bf_instruction list" where
  "real_instructions program pos n =
     filter is_real (take (nat n) (drop (nat pos) (ir program)))"

definition rule_accepts :: "bf_pattern_rule \<Rightarrow> bf_instruction \<Rightarrow> bool" where
  "rule_accepts rule instr \<longleftrightarrow>
     opcode instr = opcode (instruction rule) \<and>
     (bf_utils_check_flag (flags rule) BF_PATTERN_STRICT \<longrightarrow>
        argument instr = argument (instruction rule))"

definition match_at :: "bf_program \<Rightarrow> bf_pattern_rule list \<Rightarrow> int \<Rightarrow> nat \<Rightarrow> int \<Rightarrow> bool" where
  "match_at program rules pos sz n \<longleftrightarrow>
     0 < n \<and> pos + n < int (size' program) \<and>
     is_real (ir program ! nat (pos + n - 1)) \<and>
     list_all2 rule_accepts (take sz rules) (real_instructions program pos n)"

section \<open>Example values\<close>

text \<open>
  Concrete instructions and programs at which the theorems below are instantiated:
  an instruction with a given opcode and argument, the program \<^verbatim>\<open>bf_program_create\<close>
  returns, and a program filled up to the ceiling.
\<close>

definition mk_ins :: "bf_opcode \<Rightarrow> 32 word \<Rightarrow> bf_instruction" where
  "mk_ins op arg = \<lparr>opcode = op, argument = arg, offset = 0\<rparr>"

definition empty_program :: bf_program where
  "empty_program = \<lparr>ir = replicate 1024 zero_instruction, size' = 0, capacity = 1024\<rparr>"

definition full_program :: bf_program where
  "full_program =
     \<lparr>ir = replicate 65536 zero_instruction, size' = 65536, capacity = 65536\<rparr>"

definition zero_heap :: realloc_outcome where
  "zero_heap = Some (\<lambda>k. zero_instruction)"

text \<open>
  The buffer \<open>[ADD_V(1), NOP, NOP, JMP(5)]\<close> of logical length 4 as four appends to a
  fresh program leave it, the same buffer with a \<open>HALT\<close> behind it, a buffer with one real
  instruction and then \<open>NOP\<close>s only, a buffer with one \<open>ADD_V\<close> and a \<open>HALT\<close>, and the
  two loose rules \<open>ADD_V\<close>, \<open>JMP\<close>.
\<close>

definition skip_nop_program :: bf_program where
  "skip_nop_program =
     \<lparr>ir = [mk_ins BF_INS_ADD_V 1, mk_ins BF_INS_NOP 0, mk_ins BF_INS_NOP 0,
            mk_ins BF_INS_JMP 5] @ replicate 1020 zero_instruction,
      size' = 4, capacity = 1024\<rparr>"

definition skip_nop_rules :: "bf_pattern_rule list" where
  "skip_nop_rules =
     [\<lparr>instruction = mk_ins BF_INS_ADD_V 0, flags = 0\<rparr>,
      \<lparr>instruction = mk_ins BF_INS_JMP 0, flags = 0\<rparr>]"

definition skip_nop_program_halt :: bf_program where
  "skip_nop_program_halt =
     \<lparr>ir = [mk_ins BF_INS_ADD_V 1, mk_ins BF_INS_NOP 0, mk_ins BF_INS_NOP 0,
            mk_ins BF_INS_JMP 5, mk_ins BF_INS_HALT 0] @ replicate 1019 zero_instruction,
      size' = 5, capacity = 1024\<rparr>"

definition trailing_nop_program :: bf_program where
  "trailing_nop_program =
     \<lparr>ir = [mk_ins BF_INS_ADD_V 1, mk_ins BF_INS_NOP 0, mk_ins BF_INS_NOP 0,
            mk_ins BF_INS_NOP 0] @ replicate 1020 zero_instruction,
      size' = 4, capacity = 1024\<rparr>"

definition add_v_program :: "32 word \<Rightarrow> bf_program" where
  "add_v_program arg =
     \<lparr>ir = [mk_ins BF_INS_ADD_V arg, mk_ins BF_INS_HALT 0] @ replicate 1022 zero_instruction,
      size' = 2, capacity = 1024\<rparr>"

text \<open>
  A program of two instructions, and a program that has used up its first batch of 1024
  slots.
\<close>

definition two_program :: bf_program where
  "two_program =
     \<lparr>ir = [mk_ins BF_INS_ADD_V 1, mk_ins BF_INS_JMP 5] @ replicate 1022 zero_instruction,
      size' = 2, capacity = 1024\<rparr>"

definition batch_full_program :: bf_program where
  "batch_full_program =
     \<lparr>ir = replicate 1024 zero_instruction, size' = 1024, capacity = 1024\<rparr>"

section \<open>Well-formed programs\<close>

text \<open>
  The container's invariant: the logical length is at most the capacity, the capacity is at
  most the ceiling, and the buffer has exactly as many slots as the capacity says.
\<close>

definition program_inv :: "bf_program \<Rightarrow> bool" where
  "program_inv program \<longleftrightarrow>
     size' program \<le> capacity program \<and> capacity program \<le> BF_MAX_PROGRAM_SIZE \<and>
     length (ir program) = capacity program"

lemmas opcode_defs =
  BF_INS_NOP_def BF_INS_IN_def BF_INS_OUT_def BF_INS_INC_V_def BF_INS_DEC_V_def
  BF_INS_ADD_V_def BF_INS_SUB_V_def BF_INS_INC_P_def BF_INS_DEC_P_def BF_INS_ADD_P_def
  BF_INS_SUB_P_def BF_INS_BRANCH_Z_def BF_INS_BRANCH_NZ_def BF_INS_JMP_def
  BF_INS_HALT_def BF_INS_CLEAR_def BF_INS_COPY_def BF_INS_MUL_def

lemma empty_program_inv: "program_inv empty_program"
  by (simp add: program_inv_def empty_program_def BF_MAX_PROGRAM_SIZE_def)

lemma full_program_inv: "program_inv full_program"
  by (simp add: program_inv_def full_program_def BF_MAX_PROGRAM_SIZE_def)

lemma create_empty_program: "bf_program_create True True = Some empty_program"
  by (simp add: bf_program_create_def empty_program_def INSTRUCTION_ALLOC_COUNT_def)

lemma skip_nop_program_halt_inv: "program_inv skip_nop_program_halt"
  by (simp add: program_inv_def skip_nop_program_halt_def BF_MAX_PROGRAM_SIZE_def)

lemma trailing_nop_program_inv: "program_inv trailing_nop_program"
  by (simp add: program_inv_def trailing_nop_program_def BF_MAX_PROGRAM_SIZE_def)

lemma add_v_program_inv: "program_inv (add_v_program arg)"
  by (simp add: program_inv_def add_v_program_def BF_MAX_PROGRAM_SIZE_def)

section \<open>Conversions and array accesses\<close>

lemma size_t_of_int_nat: "n < 2 ^ 64 \<Longrightarrow> size_t_of_int (int n) = n"
  unfolding size_t_of_int_def
  by (metis nat_int of_nat_numeral of_nat_power zmod_int mod_less)

lemma size_t_add_no_wrap: "a + b < 2 ^ 64 \<Longrightarrow> size_t_add a b = a + b"
  by (simp add: size_t_add_def)

lemma array_read_nat: "j < length xs \<Longrightarrow> array_read xs (int j) = Inr (xs ! j)"
  by (simp add: array_read_def)

lemma array_write_nat: "j < length xs \<Longrightarrow> array_write xs (int j) v = Inr (xs[j := v])"
  by (simp add: array_write_def)

section \<open>Growth and append\<close>

lemma grow_at_ceiling:
  "capacity p = 65536 \<Longrightarrow> bf_program_grow heap p = (False, p)"
  by (simp add: bf_program_grow_def size_t_add_def INSTRUCTION_ALLOC_COUNT_def
      BF_MAX_PROGRAM_SIZE_def Let_def)

lemma grow_no_memory:
  "bf_program_grow None p = (False, p)"
  by (simp add: bf_program_grow_def realloc_ir_def Let_def split: option.split)

lemma grow_below_ceiling:
  assumes "capacity p < 65536"
  shows "bf_program_grow (Some fresh) p =
     (True, p\<lparr>ir := map (\<lambda>k. if k < length (ir p) then ir p ! k else fresh k)
                    [0..<min (capacity p + 1024) 65536],
              capacity := min (capacity p + 1024) 65536\<rparr>)"
  using assms
  by (simp add: bf_program_grow_def size_t_add_def INSTRUCTION_ALLOC_COUNT_def
      BF_MAX_PROGRAM_SIZE_def Let_def realloc_ir_def min_def)

text \<open>
  The program \<^verbatim>\<open>bf_program_create\<close> returns has 1024 slots, far below the ceiling; when
  \<^verbatim>\<open>realloc\<close> fails, grow returns false on it and the capacity stays 1024.
\<close>

theorem grow_realloc_failure:
  "capacity empty_program = 1024 \<and>
   bf_program_grow None empty_program = (False, empty_program)"
  by (simp add: empty_program_def grow_no_memory)

text \<open>
  Claim C8, amended. On a well-formed program whose capacity is at the ceiling of 65536
  slots, grow returns false and leaves the program as it was. Below the ceiling, when
  \<^verbatim>\<open>realloc\<close> succeeds, it returns true, the capacity becomes the old capacity plus 1024
  clamped to 65536, the buffer has that many slots, and the length and every old slot are
  unchanged. When \<^verbatim>\<open>realloc\<close> fails, grow returns false and leaves the program as it
  was.
\<close>

theorem grow_batch_or_fail:
  assumes "program_inv p"
  shows "(capacity p = 65536 \<longrightarrow> bf_program_grow heap p = (False, p)) \<and>
         (capacity p < 65536 \<longrightarrow>
            (\<exists>p'. bf_program_grow (Some fresh) p = (True, p') \<and>
                  capacity p' = min (capacity p + 1024) 65536 \<and>
                  size' p' = size' p \<and>
                  length (ir p') = capacity p' \<and>
                  take (capacity p) (ir p') = ir p)) \<and>
         bf_program_grow None p = (False, p)"
proof (intro conjI impI)
  assume "capacity p = 65536"
  then show "bf_program_grow heap p = (False, p)" by (rule grow_at_ceiling)
next
  assume lt: "capacity p < 65536"
  let ?n = "min (capacity p + 1024) 65536"
  let ?buf = "map (\<lambda>k. if k < length (ir p) then ir p ! k else fresh k) [0..<?n]"
  have len: "length (ir p) = capacity p" using assms by (simp add: program_inv_def)
  have "take (capacity p) ?buf = ir p"
    using len lt by (intro nth_equalityI) simp_all
  then show "\<exists>p'. bf_program_grow (Some fresh) p = (True, p') \<and>
                  capacity p' = min (capacity p + 1024) 65536 \<and>
                  size' p' = size' p \<and>
                  length (ir p') = capacity p' \<and>
                  take (capacity p) (ir p') = ir p"
    using grow_below_ceiling[OF lt, of fresh] by simp
next
  show "bf_program_grow None p = (False, p)" by (rule grow_no_memory)
qed

theorem grow_batch_or_fail_witness:
  "program_inv empty_program \<and> capacity empty_program < 65536 \<and>
   (\<exists>p'. bf_program_grow zero_heap empty_program = (True, p') \<and>
         capacity p' = 2048 \<and> size' p' = 0 \<and> length (ir p') = 2048 \<and>
         take 1024 (ir p') = ir empty_program) \<and>
   bf_program_grow None empty_program = (False, empty_program) \<and>
   program_inv full_program \<and> capacity full_program = 65536 \<and>
   bf_program_grow zero_heap full_program = (False, full_program)"
proof -
  have c: "capacity empty_program < 65536" "capacity empty_program = 1024"
    "size' empty_program = 0"
    by (simp_all add: empty_program_def)
  have f: "capacity full_program = 65536"
    by (simp add: full_program_def)
  from grow_batch_or_fail[OF empty_program_inv, of zero_heap "\<lambda>k. zero_instruction"] c
  have "\<exists>p'. bf_program_grow zero_heap empty_program = (True, p') \<and>
         capacity p' = 2048 \<and> size' p' = 0 \<and> length (ir p') = 2048 \<and>
         take 1024 (ir p') = ir empty_program"
    "bf_program_grow None empty_program = (False, empty_program)"
    by (auto simp: zero_heap_def)
  moreover from grow_batch_or_fail[OF full_program_inv, of zero_heap] f
  have "bf_program_grow zero_heap full_program = (False, full_program)"
    by simp
  ultimately show ?thesis
    using c f empty_program_inv full_program_inv by simp
qed

lemma grow_inv: "program_inv p \<Longrightarrow> program_inv (snd (bf_program_grow heap p))"
proof (cases heap)
  case None
  assume "program_inv p"
  then show ?thesis using None by (simp add: grow_no_memory)
next
  case (Some fresh)
  assume inv: "program_inv p"
  show ?thesis
  proof (cases "capacity p < 65536")
    case True
    with inv show ?thesis
      unfolding Some grow_below_ceiling[OF True]
      by (simp add: program_inv_def BF_MAX_PROGRAM_SIZE_def)
  next
    case False
    with inv have "capacity p = 65536"
      by (simp add: program_inv_def BF_MAX_PROGRAM_SIZE_def)
    with inv show ?thesis by (simp add: grow_at_ceiling)
  qed
qed

lemma append_room:
  assumes "program_inv p" and "size' p < capacity p"
  shows "bf_program_append heap p ins =
           Inr (True, p\<lparr>ir := (ir p)[size' p := ins], size' := size' p + 1\<rparr>)"
  using assms by (simp add: bf_program_append_def program_inv_def array_write_nat)

lemma append_full_ceiling:
  assumes "program_inv p" and "size' p = capacity p" and "capacity p = 65536"
  shows "bf_program_append heap p ins = Inr (False, p)"
  using assms by (simp add: bf_program_append_def grow_at_ceiling)

lemma append_full_no_memory:
  assumes "size' p \<ge> capacity p"
  shows "bf_program_append None p ins = Inr (False, p)"
  using assms by (simp add: bf_program_append_def grow_no_memory)

lemma append_full_grown:
  assumes "program_inv p" and "size' p = capacity p" and "capacity p < 65536"
  shows "bf_program_append (Some fresh) p ins =
           Inr (True, p\<lparr>ir := (map (\<lambda>k. if k < length (ir p) then ir p ! k else fresh k)
                    [0..<min (capacity p + 1024) 65536])[size' p := ins],
              capacity := min (capacity p + 1024) 65536, size' := size' p + 1\<rparr>)"
  using assms
  by (simp add: bf_program_append_def grow_below_ceiling program_inv_def array_write_nat)

lemma append_cases:
  assumes "program_inv p"
  obtains (stored) p' where "size' p < capacity p \<or> capacity p < 65536 \<and> heap \<noteq> None"
      and "bf_program_append heap p ins = Inr (True, p')"
      and "size' p' = size' p + 1" and "ir p' ! size' p = ins"
      and "\<forall>k < size' p. ir p' ! k = ir p ! k" and "program_inv p'"
    | (refused) "size' p = capacity p" and "capacity p = 65536 \<or> heap = None"
      and "bf_program_append heap p ins = Inr (False, p)"
proof -
  have le: "size' p \<le> capacity p" and cap: "capacity p \<le> 65536"
    and len: "length (ir p) = capacity p"
    using assms by (simp_all add: program_inv_def BF_MAX_PROGRAM_SIZE_def)
  consider "size' p < capacity p"
    | "size' p = capacity p" "capacity p = 65536"
    | "size' p = capacity p" "capacity p < 65536" "heap = None"
    | fresh where "size' p = capacity p" "capacity p < 65536" "heap = Some fresh"
    using le cap by (cases heap) force+
  then show thesis
  proof cases
    case 1
    let ?p' = "p\<lparr>ir := (ir p)[size' p := ins], size' := size' p + 1\<rparr>"
    have "bf_program_append heap p ins = Inr (True, ?p')"
      using assms 1 by (rule append_room)
    moreover have "program_inv ?p'"
      using assms 1 by (simp add: program_inv_def)
    ultimately show thesis
      using 1 len by (intro stored[of ?p']) simp_all
  next
    case 2
    then show thesis
      using append_full_ceiling[OF assms, of heap ins] by (intro refused) simp_all
  next
    case 3
    then show thesis
      using append_full_no_memory[of p ins] by (intro refused) simp_all
  next
    case 4
    let ?n = "min (capacity p + 1024) 65536"
    let ?p' = "p\<lparr>ir := (map (\<lambda>k. if k < length (ir p) then ir p ! k else fresh k)
                    [0..<?n])[size' p := ins],
              capacity := ?n, size' := size' p + 1\<rparr>"
    have "bf_program_append heap p ins = Inr (True, ?p')"
      using append_full_grown[OF assms 4(1,2), of fresh ins] 4(3) by simp
    moreover have "program_inv ?p'"
      using 4 by (simp add: program_inv_def BF_MAX_PROGRAM_SIZE_def)
    ultimately show thesis
      using 4 len by (intro stored[of ?p']) (simp_all add: nth_list_update)
  qed
qed

text \<open>
  A program that has filled its first 1024 slots is full, with the ceiling still far away;
  when \<^verbatim>\<open>realloc\<close> fails, append returns false on it.
\<close>

theorem append_realloc_failure:
  "size' batch_full_program = 1024 \<and> capacity batch_full_program = 1024 \<and>
   bf_program_append None batch_full_program (mk_ins BF_INS_INC_V 1)
     = Inr (False, batch_full_program)"
  by (simp add: batch_full_program_def append_full_no_memory)

text \<open>
  Claim C6, amended. On a well-formed program, append returns true when there is a free
  slot, or when the capacity is below the ceiling of 65536 and \<^verbatim>\<open>realloc\<close> succeeds: then
  the length has grown by one, the instruction is in the slot \<open>length - 1\<close> and every slot
  below the old length is as before. Otherwise, that is when the program is full and the
  capacity is at the ceiling or \<^verbatim>\<open>realloc\<close> fails, it returns false and leaves the program
  as it was.
\<close>

theorem append_stores_or_refuses:
  assumes "program_inv p"
  shows "if size' p < capacity p \<or> capacity p < 65536 \<and> heap \<noteq> None
         then \<exists>p'. bf_program_append heap p ins = Inr (True, p') \<and>
                size' p' = size' p + 1 \<and> ir p' ! (size' p' - 1) = ins \<and>
                (\<forall>k < size' p. ir p' ! k = ir p ! k)
         else bf_program_append heap p ins = Inr (False, p) \<and> size' p = capacity p \<and>
              (capacity p = 65536 \<or> heap = None)"
proof (rule append_cases[where heap = heap and ins = ins, OF assms])
  fix p'
  assume "size' p < capacity p \<or> capacity p < 65536 \<and> heap \<noteq> None"
    "bf_program_append heap p ins = Inr (True, p')" "size' p' = size' p + 1"
    "ir p' ! size' p = ins" "\<forall>k < size' p. ir p' ! k = ir p ! k"
  then show ?thesis by auto
next
  assume "size' p = capacity p" "capacity p = 65536 \<or> heap = None"
    "bf_program_append heap p ins = Inr (False, p)"
  then show ?thesis by auto
qed

theorem append_stores_or_refuses_witness:
  "program_inv empty_program \<and>
   (\<exists>p'. bf_program_append None empty_program (mk_ins BF_INS_INC_V 1) = Inr (True, p') \<and>
         size' p' = 1 \<and> ir p' ! 0 = mk_ins BF_INS_INC_V 1) \<and>
   program_inv full_program \<and>
   bf_program_append zero_heap full_program (mk_ins BF_INS_INC_V 1) = Inr (False, full_program)"
proof -
  have e: "size' empty_program = 0" "capacity empty_program = 1024"
    by (simp_all add: empty_program_def)
  have f: "size' full_program = 65536" "capacity full_program = 65536"
    by (simp_all add: full_program_def)
  from append_stores_or_refuses[OF empty_program_inv, of None "mk_ins BF_INS_INC_V 1"] e
  have "\<exists>p'. bf_program_append None empty_program (mk_ins BF_INS_INC_V 1) = Inr (True, p') \<and>
         size' p' = 1 \<and> ir p' ! 0 = mk_ins BF_INS_INC_V 1"
    by auto
  moreover
  from append_stores_or_refuses[OF full_program_inv, of zero_heap "mk_ins BF_INS_INC_V 1"] f
  have "bf_program_append zero_heap full_program (mk_ins BF_INS_INC_V 1)
          = Inr (False, full_program)"
    by simp
  ultimately show ?thesis
    using empty_program_inv full_program_inv by simp
qed

lemma append_inv:
  assumes "program_inv p"
  shows "\<exists>ok p'. bf_program_append heap p ins = Inr (ok, p') \<and> program_inv p' \<and>
           size' p' = size' p + (if ok then 1 else 0)"
proof (rule append_cases[where heap = heap and ins = ins, OF assms])
  fix p'
  assume "bf_program_append heap p ins = Inr (True, p')" "size' p' = size' p + 1"
    "program_inv p'"
  then show ?thesis by (intro exI[of _ True] exI[of _ p']) simp
next
  assume "bf_program_append heap p ins = Inr (False, p)"
  with assms show ?thesis by (intro exI[of _ False] exI[of _ p]) simp
qed

lemma append_all_inv:
  assumes "program_inv p"
  shows "\<exists>n q. bf_program_append_all xs p = Inr (n, q) \<and> program_inv q \<and>
           size' q = size' p + n \<and> n \<le> length xs"
  using assms
proof (induction xs arbitrary: p)
  case Nil
  then show ?case by simp
next
  case (Cons x xs)
  obtain heap ins where x: "x = (heap, ins)" by (cases x)
  from append_inv[OF Cons.prems, of heap ins]
  obtain ok p' where a: "bf_program_append heap p ins = Inr (ok, p')"
    and i: "program_inv p'" and s: "size' p' = size' p + (if ok then 1 else 0)"
    by blast
  from Cons.IH[OF i]
  obtain n q where r: "bf_program_append_all xs p' = Inr (n, q)" and iq: "program_inv q"
    and sq: "size' q = size' p' + n" and nl: "n \<le> length xs"
    by blast
  show ?case
    using x a r iq sq s nl by simp
qed

lemma create_inv:
  "bf_program_create a b = Some p \<Longrightarrow> program_inv p \<and> size' p = 0 \<and> capacity p = 1024"
  by (auto simp: bf_program_create_def program_inv_def INSTRUCTION_ALLOC_COUNT_def
      BF_MAX_PROGRAM_SIZE_def split: if_splits)

section \<open>Substitution\<close>

lemma substitute_loop_length:
  "bf_program_substitute_loop buf repl pos sz i = Inr buf' \<Longrightarrow> length buf' = length buf"
proof (induction buf repl pos sz i rule: bf_program_substitute_loop.induct)
  case (1 buf repl pos sz i)
  show ?case
  proof (cases "size_t_of_int i < sz")
    case False
    with "1.prems" show ?thesis by simp
  next
    case True
    from True "1.prems" obtain ins where r: "array_read repl i = Inr ins"
      by (cases "array_read repl i") simp_all
    from True "1.prems" r obtain b where w: "array_write buf (pos + i) ins = Inr b"
      by (cases "array_write buf (pos + i) ins") simp_all
    from True "1.prems" r w
    have "bf_program_substitute_loop b repl pos sz (i + 1) = Inr buf'" by simp
    from "1.IH"[OF True r w this] have "length buf' = length b" .
    moreover from w have "length b = length buf"
      by (auto simp: array_write_def split: if_splits)
    ultimately show ?thesis by simp
  qed
qed

lemma substitute_loop_result:
  assumes "sz \<le> length repl" and "p + sz \<le> length buf" and "sz < 2 ^ 64" and "j \<le> sz"
  shows "\<exists>buf'. bf_program_substitute_loop buf repl (int p) sz (int j) = Inr buf' \<and>
           length buf' = length buf \<and>
           (\<forall>k < length buf. buf' ! k =
              (if p + j \<le> k \<and> k < p + sz then repl ! (k - p) else buf ! k))"
  using assms
proof (induction "sz - j" arbitrary: j buf)
  case 0
  then have "j = sz" by simp
  with 0 show ?case by (auto simp: size_t_of_int_nat)
next
  case (Suc n)
  then have lt: "j < sz" by simp
  let ?b = "buf[p + j := repl ! j]"
  have step: "bf_program_substitute_loop buf repl (int p) sz (int j)
                = bf_program_substitute_loop ?b repl (int p) sz (int (Suc j))"
  proof -
    have "size_t_of_int (int j) < sz" using lt Suc.prems by (simp add: size_t_of_int_nat)
    moreover have "array_read repl (int j) = Inr (repl ! j)"
      using lt Suc.prems by (simp add: array_read_nat)
    moreover have "array_write buf (int p + int j) (repl ! j) = Inr ?b"
      using lt Suc.prems array_write_nat[of "p + j" buf "repl ! j"] by simp
    moreover have "int j + 1 = int (Suc j)" by simp
    ultimately show ?thesis
      by (subst bf_program_substitute_loop.simps) (simp only: if_True sum.case)
  qed
  have "n = sz - Suc j" using Suc.hyps by simp
  from Suc.hyps(1)[OF this, of ?b] Suc.prems lt
  obtain buf' where r: "bf_program_substitute_loop ?b repl (int p) sz (int (Suc j)) = Inr buf'"
    and l: "length buf' = length buf"
    and c: "\<forall>k < length buf. buf' ! k =
              (if p + Suc j \<le> k \<and> k < p + sz then repl ! (k - p) else ?b ! k)"
    by auto
  have "\<forall>k < length buf. buf' ! k =
              (if p + j \<le> k \<and> k < p + sz then repl ! (k - p) else buf ! k)"
  proof (intro allI impI)
    fix k assume k: "k < length buf"
    show "buf' ! k = (if p + j \<le> k \<and> k < p + sz then repl ! (k - p) else buf ! k)"
    proof (cases "k = p + j")
      case True
      with c k lt show ?thesis by simp
    next
      case False
      with c k show ?thesis by (auto simp: nth_list_update)
    qed
  qed
  with step r l show ?case by simp
qed

lemma substitute_inv:
  assumes "program_inv p" and "bf_program_substitute p repl pos sz = Inr (ok, p')"
  shows "program_inv p' \<and> size' p' = size' p \<and> capacity p' = capacity p"
proof (cases "size' p \<le> size_t_add (size_t_of_int pos) sz")
  case True
  with assms show ?thesis by (simp add: bf_program_substitute_def)
next
  case False
  with assms(2) obtain buf
    where l: "bf_program_substitute_loop (ir p) repl pos sz 0 = Inr buf"
      and p': "p' = p\<lparr>ir := buf\<rparr>"
    by (cases "bf_program_substitute_loop (ir p) repl pos sz 0")
       (auto simp: bf_program_substitute_def)
  from substitute_loop_length[OF l] assms(1) p' show ?thesis
    by (simp add: program_inv_def)
qed

text \<open>
  When \<open>pos + size\<close> reaches the logical length and the sum is representable in
  \<^verbatim>\<open>size_t\<close>, the call returns false and the program it leaves is the program it was
  given: buffer, length and capacity.
\<close>

lemma substitute_out_of_range:
  assumes "int (size' p) \<le> pos + int sz" and "pos + int sz < 2 ^ 64"
  shows "bf_program_substitute p repl pos sz = Inr (False, p)"
proof -
  have nn: "0 \<le> pos + int sz" using assms(1) by linarith
  have "int (size_t_add (size_t_of_int pos) sz) = (pos mod 2 ^ 64 + int sz) mod 2 ^ 64"
    by (simp add: size_t_add_def size_t_of_int_def zmod_int)
  also have "\<dots> = (pos + int sz) mod 2 ^ 64"
    by (simp add: mod_add_left_eq)
  also have "\<dots> = pos + int sz"
    using nn assms(2) by simp
  finally have "size' p \<le> size_t_add (size_t_of_int pos) sz"
    using assms(1) by linarith
  then show ?thesis
    by (simp add: bf_program_substitute_def)
qed

text \<open>
  Claim C4. The guard adds \<open>pos\<close> and \<open>size\<close> in \<^verbatim>\<open>size_t\<close>. For the position 1 and the
  size \<open>2 ^ 64 - 1\<close> the sum is far beyond the logical length 2, but it wraps around to 0:
  the guard lets the call through, the loop writes the replacement into slot 1 and goes on
  past the end of the replacement list. The call does not return false.
\<close>

theorem substitute_guard_wraps:
  "int (size' two_program) \<le> 1 + int 18446744073709551615 \<and>
   \<not> size' two_program \<le> size_t_add (size_t_of_int 1) 18446744073709551615 \<and>
   bf_program_substitute two_program [mk_ins BF_INS_CLEAR 0] 1 18446744073709551615
     = Inl OutOfBounds \<and>
   bf_program_substitute two_program [mk_ins BF_INS_CLEAR 0] 1 18446744073709551615
     \<noteq> Inr (False, two_program)"
  by (simp add: bf_program_substitute_def two_program_def size_t_add_def size_t_of_int_def
      array_read_def array_write_def)

text \<open>
  Nor does the guard turn a negative position away: for the position \<open>-1\<close> and the size 1
  the sum is 0, and the first write is in front of the buffer.
\<close>

lemma substitute_negative_pos:
  "bf_program_substitute two_program [mk_ins BF_INS_CLEAR 0] (- 1) 1 = Inl OutOfBounds"
  by (simp add: bf_program_substitute_def two_program_def size_t_add_def size_t_of_int_def
      array_read_def array_write_def)

lemma substitute_span:
  assumes "program_inv p" and "0 \<le> pos" and "pos + int sz < int (size' p)"
    and "sz \<le> length repl"
  shows "\<exists>p'. bf_program_substitute p repl pos sz = Inr (True, p') \<and>
           size' p' = size' p \<and> capacity p' = capacity p \<and>
           length (ir p') = length (ir p) \<and>
           (\<forall>k < length (ir p). ir p' ! k =
              (if pos \<le> int k \<and> int k < pos + int sz then repl ! (k - nat pos)
               else ir p ! k))"
proof -
  obtain q where q: "pos = int q" using assms(2) nonneg_int_cases by blast
  have b: "q + sz < size' p" using assms(3) q by linarith
  have le: "size' p \<le> length (ir p)" and cap: "length (ir p) \<le> 65536"
    using assms(1) by (simp_all add: program_inv_def BF_MAX_PROGRAM_SIZE_def)
  have small: "q + sz < 2 ^ 64" using b le cap by simp
  then have "size_t_add (size_t_of_int pos) sz = q + sz"
    using q by (simp add: size_t_of_int_nat size_t_add_no_wrap)
  then have guard: "\<not> size' p \<le> size_t_add (size_t_of_int pos) sz"
    using b by simp
  have "sz < 2 ^ 64" using small by simp
  from substitute_loop_result[OF assms(4) _ this, of q "ir p" 0] b le
  obtain buf' where r: "bf_program_substitute_loop (ir p) repl (int q) sz 0 = Inr buf'"
    and l: "length buf' = length (ir p)"
    and c: "\<forall>k < length (ir p). buf' ! k =
              (if q \<le> k \<and> k < q + sz then repl ! (k - q) else ir p ! k)"
    by auto
  have "bf_program_substitute p repl pos sz = Inr (True, p\<lparr>ir := buf'\<rparr>)"
    using guard r q by (simp add: bf_program_substitute_def)
  moreover have "\<forall>k < length (ir p). buf' ! k =
              (if pos \<le> int k \<and> int k < pos + int sz then repl ! (k - nat pos)
               else ir p ! k)"
    using c q by auto
  ultimately show ?thesis using l by simp
qed

text \<open>
  Claim C5. For a span that starts at a non-negative position and ends strictly below the
  logical length, with a replacement list of at least \<open>size\<close> instructions, the call
  returns true; slot \<open>k\<close> of the span holds replacement instruction \<open>k - pos\<close>, every
  other slot of the buffer is as before, and so are the length and the capacity.
\<close>

theorem substitute_in_range:
  assumes "program_inv p" and "0 \<le> pos" and "pos + int sz < int (size' p)"
    and "sz \<le> length repl"
  shows "\<exists>p'. bf_program_substitute p repl pos sz = Inr (True, p') \<and>
           size' p' = size' p \<and> capacity p' = capacity p \<and>
           length (ir p') = length (ir p) \<and>
           (\<forall>k < length (ir p). ir p' ! k =
              (if pos \<le> int k \<and> int k < pos + int sz then repl ! (k - nat pos)
               else ir p ! k))"
  using assms by (rule substitute_span)

theorem substitute_in_range_witness:
  "program_inv \<lparr>ir = [mk_ins BF_INS_INC_V 1, mk_ins BF_INS_INC_V 1, mk_ins BF_INS_HALT 0],
                size' = 3, capacity = 3\<rparr> \<and>
   bf_program_substitute
     \<lparr>ir = [mk_ins BF_INS_INC_V 1, mk_ins BF_INS_INC_V 1, mk_ins BF_INS_HALT 0],
      size' = 3, capacity = 3\<rparr>
     [mk_ins BF_INS_CLEAR 0, mk_ins BF_INS_NOP 0] 0 2
   = Inr (True,
       \<lparr>ir = [mk_ins BF_INS_CLEAR 0, mk_ins BF_INS_NOP 0, mk_ins BF_INS_HALT 0],
        size' = 3, capacity = 3\<rparr>)"
proof -
  let ?p = "\<lparr>ir = [mk_ins BF_INS_INC_V 1, mk_ins BF_INS_INC_V 1, mk_ins BF_INS_HALT 0],
              size' = 3, capacity = 3\<rparr>"
  let ?r = "[mk_ins BF_INS_CLEAR 0, mk_ins BF_INS_NOP 0]"
  have i: "program_inv ?p" by (simp add: program_inv_def BF_MAX_PROGRAM_SIZE_def)
  have h2: "(0::int) \<le> 0" by simp
  have h3: "0 + int 2 < int (size' ?p)" by simp
  have h4: "2 \<le> length ?r" by simp
  from substitute_in_range[OF i h2 h3 h4]
  obtain p' where r: "bf_program_substitute ?p ?r 0 2 = Inr (True, p')"
    and s: "size' p' = 3" and c: "capacity p' = 3" and l: "length (ir p') = 3"
    and k: "\<forall>k < 3. ir p' ! k = (if k < 2 then ?r ! k else ir ?p ! k)"
    by auto
  from k have "ir p' ! 0 = mk_ins BF_INS_CLEAR 0" "ir p' ! 1 = mk_ins BF_INS_NOP 0"
    "ir p' ! 2 = mk_ins BF_INS_HALT 0"
    by simp_all
  with l have "ir p' = [mk_ins BF_INS_CLEAR 0, mk_ins BF_INS_NOP 0, mk_ins BF_INS_HALT 0]"
    by (intro nth_equalityI) (auto simp: less_Suc_eq numeral_3_eq_3 numeral_2_eq_2)
  with s c have "p' = \<lparr>ir = [mk_ins BF_INS_CLEAR 0, mk_ins BF_INS_NOP 0, mk_ins BF_INS_HALT 0],
        size' = 3, capacity = 3\<rparr>"
    by simp
  with r i show ?thesis by simp
qed

section \<open>The matcher\<close>

declare bf_program_match_sequence_loop.simps [simp del]

lemma size_t_of_int_nonneg: "0 \<le> k \<Longrightarrow> k < 2 ^ 64 \<Longrightarrow> size_t_of_int k = nat k"
  by (simp add: size_t_of_int_def)

lemma array_read_int:
  "0 \<le> k \<Longrightarrow> k < int (length xs) \<Longrightarrow> array_read xs k = Inr (xs ! nat k)"
  by (simp add: array_read_def)

lemma int_of_size_t_small: "n < 2 ^ 31 \<Longrightarrow> int_of_size_t n = int n"
  by (simp add: int_of_size_t_def Let_def)

lemma int_of_size_t_wrapped:
  assumes "2 ^ 64 \<le> k + int n" and "0 \<le> k" and "k < 2 ^ 31" and "n < 2 ^ 64"
  shows "int_of_size_t n < 0"
proof -
  define d where "d = 2 ^ 64 - int n"
  have n64: "int n < 2 ^ 64" using assms(4) by simp
  have d: "0 < d" "d < 2 ^ 31" using assms(1,2,3) n64 by (simp_all add: d_def)
  have "int n = (2 ^ 32 - d) + (2 ^ 32 - 1) * 2 ^ 32" by (simp add: d_def)
  then have "int n mod 2 ^ 32 = (2 ^ 32 - d) mod 2 ^ 32"
    by (metis mod_mult_self1)
  also have "\<dots> = 2 ^ 32 - d"
  proof (rule mod_pos_pos_trivial)
    show "0 \<le> 2 ^ 32 - d" using d by simp
    show "2 ^ 32 - d < 2 ^ 32" using d by simp
  qed
  finally have m: "int n mod 2 ^ 32 = 2 ^ 32 - d" .
  have "\<not> (2 ^ 32 - d < (2 :: int) ^ 31)" using d by simp
  with m d show ?thesis by (simp add: int_of_size_t_def Let_def)
qed

lemma size_t_sum_no_wrap:
  assumes "0 \<le> pos" and "pos + int sz < 2 ^ 64"
  shows "size_t_add (size_t_of_int pos) sz = nat pos + sz"
proof -
  have "pos < 2 ^ 64" using assms by linarith
  then have "size_t_of_int pos = nat pos" using assms(1) by (simp add: size_t_of_int_nonneg)
  moreover have "int (nat pos + sz) < 2 ^ 64" using assms by simp
  then have "nat pos + sz < 2 ^ 64"
    unfolding of_nat_less_numeral_power_cancel_iff .
  ultimately show ?thesis by (simp add: size_t_add_no_wrap)
qed

lemma match_loop_exit:
  assumes "\<not> (i < m \<and> size_t_of_int (pos + m) < size' p)"
  shows "bf_program_match_sequence_loop p rules pos sz i m r =
           (if size_t_of_int r = sz then Inr m else Inr 0)"
  using assms by (subst bf_program_match_sequence_loop.simps) auto

lemma match_loop_step:
  assumes "i < m" and "size_t_of_int (pos + m) < size' p"
    and "array_read (ir p) (pos + i) = Inr instr"
    and "array_read rules r = Inr rule"
  shows "bf_program_match_sequence_loop p rules pos sz i m r =
           (if opcode instr = BF_INS_NOP then
              bf_program_match_sequence_loop p rules pos sz (i + 1) (m + 1) r
            else if opcode instr \<noteq> opcode (instruction rule) then Inr 0
            else if bf_utils_check_flag (flags rule) BF_PATTERN_STRICT
                    \<and> argument instr \<noteq> argument (instruction rule) then Inr 0
            else bf_program_match_sequence_loop p rules pos sz (i + 1) m (r + 1))"
  using assms by (subst bf_program_match_sequence_loop.simps) simp

lemma real_instructions_0: "real_instructions p pos 0 = []"
  by (simp add: real_instructions_def)

lemma real_instructions_step:
  assumes "0 \<le> pos" and "0 \<le> i" and "pos + i < int (length (ir p))"
  shows "real_instructions p pos (i + 1) =
           real_instructions p pos i @
             (if is_real (ir p ! nat (pos + i)) then [ir p ! nat (pos + i)] else [])"
proof -
  let ?xs = "drop (nat pos) (ir p)"
  have l: "nat i < length ?xs" using assms by simp
  have "nat (i + 1) = Suc (nat i)" using assms by simp
  then have "take (nat (i + 1)) ?xs = take (nat i) ?xs @ [?xs ! nat i]"
    using l by (simp add: take_Suc_conv_app_nth)
  moreover have "?xs ! nat i = ir p ! nat (pos + i)"
    using assms by (simp add: nat_add_distrib)
  ultimately show ?thesis by (simp add: real_instructions_def)
qed

lemma real_instructions_split:
  assumes "0 \<le> a" and "a \<le> b"
  shows "\<exists>ys. real_instructions p pos b = real_instructions p pos a @ ys \<and>
           int (length ys) \<le> b - a"
proof -
  let ?xs = "drop (nat pos) (ir p)"
  let ?ys = "filter is_real (take (nat b - nat a) (drop (nat a) ?xs))"
  have "nat b = nat a + (nat b - nat a)" using assms by simp
  then have "take (nat b) ?xs = take (nat a) ?xs @ take (nat b - nat a) (drop (nat a) ?xs)"
    by (metis take_add)
  then have "real_instructions p pos b = real_instructions p pos a @ ?ys"
    by (simp add: real_instructions_def)
  moreover have "length ?ys \<le> nat b - nat a"
    by (rule order_trans[OF length_filter_le]) simp
  then have "int (length ?ys) \<le> b - a" using assms by linarith
  ultimately show ?thesis by blast
qed

lemma match_loop_sound:
  assumes "0 \<le> pos" and "0 \<le> i" and "i \<le> m" and "m - i = int sz - r"
    and "pos + m \<le> int (size' p)" and "size' p \<le> length (ir p)" and "size' p < 2 ^ 64"
    and "sz \<le> length rules" and "0 \<le> r"
    and "list_all2 rule_accepts (take (nat r) rules) (real_instructions p pos i)"
    and "i = m \<longrightarrow> 0 < i \<and> pos + m < int (size' p) \<and> is_real (ir p ! nat (pos + i - 1))"
  shows "\<exists>n. bf_program_match_sequence_loop p rules pos sz i m r = Inr n \<and>
           (n \<noteq> 0 \<longrightarrow> match_at p rules pos sz n)"
  using assms
proof (induction "nat (int (size' p) - (pos + i))" arbitrary: i m r rule: less_induct)
  case less
  note inv = less.prems
  have rle: "r \<le> int sz" using inv(3,4) by linarith
  show ?case
  proof (cases "i < m \<and> size_t_of_int (pos + m) < size' p")
    case False
    have e: "bf_program_match_sequence_loop p rules pos sz i m r =
           (if size_t_of_int r = sz then Inr m else Inr 0)"
      using False by (rule match_loop_exit)
    show ?thesis
    proof (cases "size_t_of_int r = sz")
      case ne: False
      with e show ?thesis by simp
    next
      case eq: True
      have "sz < 2 ^ 64"
        using eq by (simp add: size_t_of_int_def)
      then have "int sz < 2 ^ 64" by simp
      then have "r < 2 ^ 64" using rle by linarith
      then have rs: "int sz = r" using eq inv(9) by (simp add: size_t_of_int_nonneg)
      then have im: "i = m" using inv(4) by linarith
      from rs have "nat r = sz" by simp
      with inv(10,11) im have "match_at p rules pos sz m"
        by (simp add: match_at_def)
      with e eq show ?thesis by simp
    qed
  next
    case True
    then have lt: "i < m" and c: "size_t_of_int (pos + m) < size' p" by simp_all
    have "0 \<le> pos + m" using inv(1,2,3) by linarith
    moreover have "int (size' p) < 2 ^ 64" using inv(7) by simp
    then have "pos + m < 2 ^ 64" using inv(5) by linarith
    ultimately have "size_t_of_int (pos + m) = nat (pos + m)"
      by (rule size_t_of_int_nonneg)
    with c have b: "pos + m < int (size' p)" by linarith
    have inb: "pos + i < int (length (ir p))" using lt b inv(6) by linarith
    let ?instr = "ir p ! nat (pos + i)"
    let ?rule = "rules ! nat r"
    have rd: "array_read (ir p) (pos + i) = Inr ?instr"
      using inv(1,2) inb by (simp add: array_read_int)
    have rl: "nat r < length rules" using lt inv(4,8,9) by linarith
    then have rr: "array_read rules r = Inr ?rule"
      using inv(9) by (simp add: array_read_int)
    note step = match_loop_step[OF lt c rd rr, of sz]
    note reals = real_instructions_step[OF inv(1,2) inb]
    have meas: "nat (int (size' p) - (pos + (i + 1))) < nat (int (size' p) - (pos + i))"
      using lt b by linarith
    show ?thesis
    proof (cases "opcode ?instr = BF_INS_NOP")
      case nop: True
      have "\<exists>n. bf_program_match_sequence_loop p rules pos sz (i + 1) (m + 1) r = Inr n \<and>
           (n \<noteq> 0 \<longrightarrow> match_at p rules pos sz n)"
      proof (rule less.hyps[OF meas])
        show "list_all2 rule_accepts (take (nat r) rules) (real_instructions p pos (i + 1))"
          using reals nop inv(10) by (simp add: is_real_def)
        show "i + 1 = m + 1 \<longrightarrow> 0 < i + 1 \<and> pos + (m + 1) < int (size' p) \<and>
                is_real (ir p ! nat (pos + (i + 1) - 1))"
          using lt by simp
      qed (use inv lt b in linarith)+
      with step nop show ?thesis by simp
    next
      case real: False
      show ?thesis
      proof (cases "rule_accepts ?rule ?instr")
        case False
        with step real show ?thesis by (auto simp: rule_accepts_def)
      next
        case True
        have "\<exists>n. bf_program_match_sequence_loop p rules pos sz (i + 1) m (r + 1) = Inr n \<and>
           (n \<noteq> 0 \<longrightarrow> match_at p rules pos sz n)"
        proof (rule less.hyps[OF meas])
          have "nat (r + 1) = Suc (nat r)" using inv(9) by simp
          then have "take (nat (r + 1)) rules = take (nat r) rules @ [?rule]"
            using rl by (simp add: take_Suc_conv_app_nth)
          moreover have "real_instructions p pos (i + 1) = real_instructions p pos i @ [?instr]"
            using reals real by (simp add: is_real_def)
          ultimately
          show "list_all2 rule_accepts (take (nat (r + 1)) rules)
                  (real_instructions p pos (i + 1))"
            using inv(10) True by (simp add: list_all2_appendI)
          have "pos + (i + 1) - 1 = pos + i" by simp
          then show "i + 1 = m \<longrightarrow> 0 < i + 1 \<and> pos + m < int (size' p) \<and>
                is_real (ir p ! nat (pos + (i + 1) - 1))"
            using inv(2) b real by (simp only: is_real_def) simp
        qed (use inv lt b in linarith)+
        with step real True show ?thesis by (auto simp: rule_accepts_def)
      qed
    qed
  qed
qed

lemma match_loop_complete:
  assumes "0 \<le> pos" and "size' p \<le> length (ir p)" and "size' p < 2 ^ 64"
    and "sz \<le> length rules" and "match_at p rules pos sz N"
    and "0 \<le> i" and "i \<le> N" and "r = int (length (real_instructions p pos i))"
    and "m - i = int sz - r"
  shows "bf_program_match_sequence_loop p rules pos sz i m r = Inr N"
  using assms(6-9)
proof (induction "nat (N - i)" arbitrary: i m r rule: less_induct)
  case less
  note st = less.prems
  from assms(5) have N0: "0 < N" and Nb: "pos + N < int (size' p)"
    and last: "is_real (ir p ! nat (pos + N - 1))"
    and acc: "list_all2 rule_accepts (take sz rules) (real_instructions p pos N)"
    by (simp_all add: match_at_def)
  from acc have lenN: "length (real_instructions p pos N) = sz"
    using assms(4) by (auto dest: list_all2_lengthD)
  have s64: "int (size' p) < 2 ^ 64" using assms(3) by simp
  show ?case
  proof (cases "i = N")
    case True
    with st(3) lenN have r: "r = int sz" by simp
    with st(4) have "\<not> (i < m \<and> size_t_of_int (pos + m) < size' p)" by simp
    from match_loop_exit[OF this, of rules sz r]
    have e: "bf_program_match_sequence_loop p rules pos sz i m r =
           (if size_t_of_int r = sz then Inr m else Inr 0)" .
    have "length (real_instructions p pos N) \<le> nat N"
      unfolding real_instructions_def by (rule order_trans[OF length_filter_le]) simp
    then have "int sz \<le> N" using lenN N0 by linarith
    then have "int sz < 2 ^ 64" using Nb assms(1) s64 by linarith
    then have "sz < 2 ^ 64" unfolding of_nat_less_numeral_power_cancel_iff .
    then have "size_t_of_int r = sz" using r by (simp add: size_t_of_int_nat)
    moreover have "m = N" using st(4) r True by simp
    ultimately show ?thesis using e by simp
  next
    case False
    then have iN: "i < N" using st(2) by simp
    have inbN: "pos + (N - 1) < int (length (ir p))" using Nb assms(2) by linarith
    have "real_instructions p pos (N - 1 + 1) =
            real_instructions p pos (N - 1) @ [ir p ! nat (pos + (N - 1))]"
    proof -
      have "pos + (N - 1) = pos + N - 1" by simp
      with last have "is_real (ir p ! nat (pos + (N - 1)))" by (simp only:)
      with real_instructions_step[OF assms(1) _ inbN] N0 show ?thesis by simp
    qed
    then have "length (real_instructions p pos (N - 1)) + 1 = sz" using lenN by simp
    moreover from real_instructions_split[OF st(1), of "N - 1" p pos] iN
    obtain ys where "real_instructions p pos (N - 1) = real_instructions p pos i @ ys"
      and "int (length ys) \<le> N - 1 - i"
      by auto
    ultimately have rs: "r + 1 + int (length ys) = int sz" and ys: "int (length ys) \<le> N - 1 - i"
      using st(3) by simp_all
    have lt: "i < m" using rs st(4) by linarith
    have mN: "m \<le> N" using rs ys st(4) by linarith
    have b: "pos + m < int (size' p)" using mN Nb by linarith
    have nn: "0 \<le> pos + m" using assms(1) st(1) lt by linarith
    have "pos + m < 2 ^ 64" using b s64 by linarith
    with nn have "size_t_of_int (pos + m) = nat (pos + m)"
      by (rule size_t_of_int_nonneg)
    moreover have "nat (pos + m) < size' p" using b nn by linarith
    ultimately have c: "size_t_of_int (pos + m) < size' p" by simp
    have inb: "pos + i < int (length (ir p))" using iN Nb assms(2) by linarith
    let ?instr = "ir p ! nat (pos + i)"
    let ?rule = "rules ! nat r"
    have r0: "0 \<le> r" using st(3) by simp
    have rlt: "nat r < sz" using rs r0 by linarith
    have rd: "array_read (ir p) (pos + i) = Inr ?instr"
      using assms(1) st(1) inb by (simp add: array_read_int)
    have rr: "array_read rules r = Inr ?rule"
      using rlt assms(4) r0 by (simp add: array_read_int)
    note step = match_loop_step[OF lt c rd rr, of sz]
    note reals = real_instructions_step[OF assms(1) st(1) inb]
    have meas: "nat (N - (i + 1)) < nat (N - i)" using iN by linarith
    show ?thesis
    proof (cases "opcode ?instr = BF_INS_NOP")
      case nop: True
      have "bf_program_match_sequence_loop p rules pos sz (i + 1) (m + 1) r = Inr N"
      proof (rule less.hyps[OF meas])
        show "r = int (length (real_instructions p pos (i + 1)))"
          using reals nop st(3) by (simp add: is_real_def)
      qed (use st iN in linarith)+
      with step nop show ?thesis by simp
    next
      case real: False
      have ri: "real_instructions p pos (i + 1) = real_instructions p pos i @ [?instr]"
        using reals real by (simp add: is_real_def)
      have "0 \<le> i + 1" "i + 1 \<le> N" using st(1) iN by simp_all
      from real_instructions_split[OF this, of p pos] ri
      obtain zs where "real_instructions p pos N = real_instructions p pos i @ ?instr # zs"
        by auto
      then have "real_instructions p pos N ! nat r = ?instr"
        using st(3) by (simp add: nth_append)
      moreover have "rule_accepts (take sz rules ! nat r) (real_instructions p pos N ! nat r)"
        using list_all2_nthD2[OF acc, of "nat r"] rlt lenN by simp
      ultimately have ok: "rule_accepts ?rule ?instr" using rlt by simp
      have "bf_program_match_sequence_loop p rules pos sz (i + 1) m (r + 1) = Inr N"
      proof (rule less.hyps[OF meas])
        show "r + 1 = int (length (real_instructions p pos (i + 1)))"
          using ri st(3) by simp
      qed (use st iN in linarith)+
      with step real ok show ?thesis by (auto simp: rule_accepts_def)
    qed
  qed
qed

lemma match_sequence_sound:
  assumes "program_inv p" and "0 \<le> pos" and "pos < 2 ^ 31" and "sz < 2 ^ 64"
    and "sz \<le> length rules"
  shows "\<exists>n. bf_program_match_sequence p rules pos sz = Inr n \<and>
           (n \<noteq> 0 \<longrightarrow> match_at p rules pos sz n)"
proof (cases "size' p \<le> size_t_add (size_t_of_int pos) sz \<or> sz \<le> 0")
  case True
  then show ?thesis by (simp add: bf_program_match_sequence_def)
next
  case False
  then have g: "size_t_add (size_t_of_int pos) sz < size' p" and pos_sz: "0 < sz" by simp_all
  have le: "size' p \<le> length (ir p)" and cap: "size' p \<le> 65536"
    using assms(1) by (simp_all add: program_inv_def BF_MAX_PROGRAM_SIZE_def)
  have unfold: "bf_program_match_sequence p rules pos sz =
      bf_program_match_sequence_loop p rules pos sz 0 (int_of_size_t sz) 0"
    using False by (simp add: bf_program_match_sequence_def)
  show ?thesis
  proof (cases "pos + int sz < 2 ^ 64")
    case True
    from size_t_sum_no_wrap[OF assms(2) True] g
    have b: "nat pos + sz < size' p" by simp
    then have "sz < 2 ^ 31" using cap by simp
    then have m: "int_of_size_t sz = int sz" by (rule int_of_size_t_small)
    have "\<exists>n. bf_program_match_sequence_loop p rules pos sz 0 (int sz) 0 = Inr n \<and>
           (n \<noteq> 0 \<longrightarrow> match_at p rules pos sz n)"
    proof (rule match_loop_sound[OF assms(2)])
      show "pos + int sz \<le> int (size' p)" using b assms(2) by linarith
      show "size' p < 2 ^ 64" using cap by simp
      show "list_all2 rule_accepts (take (nat 0) rules) (real_instructions p pos 0)"
        by (simp add: real_instructions_0)
      show "0 = int sz \<longrightarrow> 0 < (0::int) \<and> pos + int sz < int (size' p) \<and>
              is_real (ir p ! nat (pos + 0 - 1))"
        using pos_sz by simp
    qed (use le assms(5) in simp_all)
    with unfold m show ?thesis by simp
  next
    case False
    then have "2 ^ 64 \<le> pos + int sz" by simp
    from int_of_size_t_wrapped[OF this assms(2,3,4)]
    have "\<not> (0 < int_of_size_t sz \<and>
              size_t_of_int (pos + int_of_size_t sz) < size' p)"
      by simp
    from match_loop_exit[OF this, of rules sz 0] pos_sz unfold
    show ?thesis by (simp add: size_t_of_int_def)
  qed
qed

lemma match_sequence_complete:
  assumes "program_inv p" and "0 \<le> pos" and "sz \<le> length rules"
    and "match_at p rules pos sz N"
  shows "bf_program_match_sequence p rules pos sz = Inr N"
proof -
  have le: "size' p \<le> length (ir p)" and cap: "size' p \<le> 65536"
    using assms(1) by (simp_all add: program_inv_def BF_MAX_PROGRAM_SIZE_def)
  from assms(4) have N0: "0 < N" and Nb: "pos + N < int (size' p)"
    and last: "is_real (ir p ! nat (pos + N - 1))"
    and acc: "list_all2 rule_accepts (take sz rules) (real_instructions p pos N)"
    by (simp_all add: match_at_def)
  from acc have lenN: "length (real_instructions p pos N) = sz"
    using assms(3) by (auto dest: list_all2_lengthD)
  have "length (real_instructions p pos N) \<le> nat N"
    unfolding real_instructions_def by (rule order_trans[OF length_filter_le]) simp
  then have szN: "int sz \<le> N" using lenN N0 by linarith
  have inbN: "pos + (N - 1) < int (length (ir p))" using Nb le by linarith
  have "real_instructions p pos (N - 1 + 1) =
          real_instructions p pos (N - 1) @ [ir p ! nat (pos + (N - 1))]"
  proof -
    have "pos + (N - 1) = pos + N - 1" by simp
    with last have "is_real (ir p ! nat (pos + (N - 1)))" by (simp only:)
    with real_instructions_step[OF assms(2) _ inbN] N0 show ?thesis by simp
  qed
  then have sz0: "0 < sz" using lenN by simp
  have small: "pos + int sz < int (size' p)" using szN Nb by linarith
  then have "pos + int sz < 2 ^ 64" using cap by simp
  from size_t_sum_no_wrap[OF assms(2) this] small assms(2)
  have g: "\<not> (size' p \<le> size_t_add (size_t_of_int pos) sz \<or> sz \<le> 0)"
    using sz0 by simp
  have "sz < 2 ^ 31" using small assms(2) cap by simp
  then have m: "int_of_size_t sz = int sz" by (rule int_of_size_t_small)
  have "bf_program_match_sequence_loop p rules pos sz 0 (int sz) 0 = Inr N"
  proof (rule match_loop_complete[OF assms(2) le _ assms(3,4)])
    show "size' p < 2 ^ 64" using cap by simp
    show "0 = int (length (real_instructions p pos 0))" by (simp add: real_instructions_0)
  qed (use N0 in simp_all)
  with g m show ?thesis by (simp add: bf_program_match_sequence_def)
qed

lemma match_loop_enough_rules:
  assumes "0 \<le> pos" and "0 \<le> r" and "r \<le> i" and "pos + i \<le> int (length (ir p))"
    and "length (ir p) < 2 ^ 64" and "nat r \<le> length rules"
    and "bf_program_match_sequence_loop p rules pos sz i m r = Inr n" and "n \<noteq> 0"
  shows "sz \<le> length rules"
  using assms(2,3,4,6,7)
proof (induction "nat (int (length (ir p)) - (pos + i))" arbitrary: i m r rule: less_induct)
  case less
  note st = less.prems
  show ?case
  proof (cases "i < m \<and> size_t_of_int (pos + m) < size' p")
    case False
    from match_loop_exit[OF False, of rules sz r] st(5) assms(8)
    have eq: "size_t_of_int r = sz" by (auto split: if_splits)
    have "int (length (ir p)) < 2 ^ 64" using assms(5) by simp
    then have "r < 2 ^ 64" using st(2,3) assms(1) by linarith
    with eq st(1) have "sz = nat r" by (simp add: size_t_of_int_nonneg)
    with st(4) show ?thesis by simp
  next
    case True
    then have lt: "i < m" and c: "size_t_of_int (pos + m) < size' p" by simp_all
    from st(5) True obtain instr where rd: "array_read (ir p) (pos + i) = Inr instr"
      by (subst (asm) bf_program_match_sequence_loop.simps)
         (cases "array_read (ir p) (pos + i)", simp_all)
    from st(5) True rd obtain rule where rr: "array_read rules r = Inr rule"
      by (subst (asm) bf_program_match_sequence_loop.simps)
         (cases "array_read rules r", simp_all)
    from rd have inb: "pos + i < int (length (ir p))"
      by (auto simp: array_read_def split: if_splits)
    from rr have rl: "r < int (length rules)"
      by (auto simp: array_read_def split: if_splits)
    note step = match_loop_step[OF lt c rd rr, of sz]
    have meas: "nat (int (length (ir p)) - (pos + (i + 1))) < nat (int (length (ir p)) - (pos + i))"
      using inb by linarith
    show ?thesis
    proof (cases "opcode instr = BF_INS_NOP")
      case nop: True
      with step st(5)
      have "bf_program_match_sequence_loop p rules pos sz (i + 1) (m + 1) r = Inr n" by simp
      from less.hyps[OF meas st(1) _ _ st(4) this] st(2) inb show ?thesis by simp
    next
      case real: False
      with step st(5) assms(8)
      have "bf_program_match_sequence_loop p rules pos sz (i + 1) m (r + 1) = Inr n"
        by (auto split: if_splits)
      from less.hyps[OF meas _ _ _ _ this] st(1,2) inb rl show ?thesis by simp
    qed
  qed
qed

lemma match_sequence_enough_rules:
  assumes "program_inv p" and "0 \<le> pos" and "pos < 2 ^ 31" and "sz < 2 ^ 64"
    and "bf_program_match_sequence p rules pos sz = Inr n" and "n \<noteq> 0"
  shows "sz \<le> length rules"
proof -
  have le: "size' p \<le> length (ir p)" and cap: "length (ir p) \<le> 65536"
    using assms(1) by (simp_all add: program_inv_def BF_MAX_PROGRAM_SIZE_def)
  have g: "\<not> (size' p \<le> size_t_add (size_t_of_int pos) sz \<or> sz \<le> 0)"
    using assms(5,6) by (auto simp: bf_program_match_sequence_def split: if_splits)
  then have unfold: "bf_program_match_sequence_loop p rules pos sz 0 (int_of_size_t sz) 0 = Inr n"
    using assms(5) by (simp add: bf_program_match_sequence_def)
  show ?thesis
  proof (cases "pos + int sz < 2 ^ 64")
    case True
    from size_t_sum_no_wrap[OF assms(2) True] g
    have "nat pos + sz < size' p" by simp
    then have "pos + 0 \<le> int (length (ir p))" using le assms(2) by linarith
    moreover have "length (ir p) < 2 ^ 64" using cap by simp
    ultimately show ?thesis
      using match_loop_enough_rules[OF assms(2) _ _ _ _ _ unfold assms(6)] by simp
  next
    case False
    then have "2 ^ 64 \<le> pos + int sz" by simp
    from int_of_size_t_wrapped[OF this assms(2,3,4)]
    have "\<not> (0 < int_of_size_t sz \<and>
              size_t_of_int (pos + int_of_size_t sz) < size' p)"
      by simp
    from match_loop_exit[OF this, of rules sz 0] unfold g assms(6)
    show ?thesis by (simp add: size_t_of_int_def split: if_splits)
  qed
qed

text \<open>
  Claim C10. On a well-formed program and from a non-negative position, whatever the rule
  list and the rule count, a span \<open>n\<close> other than 0 returned by the matcher ends strictly
  below the logical length, and its last slot \<open>pos + n - 1\<close> holds a real instruction.
  Substituting at \<open>pos\<close> with size \<open>n\<close>, from any replacement list of at least \<open>n\<close>
  instructions, then passes the bounds check and returns true.
\<close>

theorem match_span_substitutable:
  assumes "program_inv p" and "0 \<le> pos" and "pos < 2 ^ 31" and "sz < 2 ^ 64"
    and "bf_program_match_sequence p rules pos sz = Inr n" and "n \<noteq> 0"
  shows "0 < n \<and> pos + n < int (size' p) \<and>
         opcode (ir p ! nat (pos + n - 1)) \<noteq> BF_INS_NOP \<and>
         (\<forall>repl. nat n \<le> length repl \<longrightarrow>
            (\<exists>p'. bf_program_substitute p repl pos (size_t_of_int n) = Inr (True, p')))"
proof -
  from assms have rl: "sz \<le> length rules" by (rule match_sequence_enough_rules)
  from match_sequence_sound[OF assms(1-4) rl] assms(5,6)
  have n: "0 < n" and b: "pos + n < int (size' p)"
    and l: "is_real (ir p ! nat (pos + n - 1))"
    by (auto simp: match_at_def)
  have "size' p \<le> 65536"
    using assms(1) by (simp add: program_inv_def BF_MAX_PROGRAM_SIZE_def)
  then have "n < 2 ^ 64" using b assms(2) by simp
  then have c: "size_t_of_int n = nat n" using n by (simp add: size_t_of_int_nonneg)
  have "\<exists>p'. bf_program_substitute p repl pos (size_t_of_int n) = Inr (True, p')"
    if "nat n \<le> length repl" for repl
  proof -
    have "pos + int (nat n) < int (size' p)" using b n by simp
    from substitute_span[OF assms(1,2) this that] c show ?thesis by auto
  qed
  with n b l show ?thesis by (simp add: is_real_def)
qed

theorem match_span_substitutable_witness:
  "program_inv skip_nop_program_halt \<and>
   bf_program_match_sequence skip_nop_program_halt skip_nop_rules 0 2 = Inr 4 \<and>
   0 + 4 < int (size' skip_nop_program_halt) \<and>
   opcode (ir skip_nop_program_halt ! nat (0 + 4 - 1)) \<noteq> BF_INS_NOP \<and>
   (\<exists>p'. bf_program_substitute skip_nop_program_halt
           [mk_ins BF_INS_CLEAR 0, mk_ins BF_INS_NOP 0, mk_ins BF_INS_NOP 0,
            mk_ins BF_INS_NOP 0] 0 (size_t_of_int 4) = Inr (True, p'))"
proof -
  let ?repl = "[mk_ins BF_INS_CLEAR 0, mk_ins BF_INS_NOP 0, mk_ins BF_INS_NOP 0,
            mk_ins BF_INS_NOP 0]"
  have m: "bf_program_match_sequence skip_nop_program_halt skip_nop_rules 0 2 = Inr 4"
    by (simp add: bf_program_match_sequence_def bf_program_match_sequence_loop.simps
      skip_nop_program_halt_def skip_nop_rules_def size_t_add_def size_t_of_int_def
      int_of_size_t_def array_read_def mk_ins_def opcode_defs bf_utils_check_flag_def
      BF_PATTERN_STRICT_def)
  have h: "(0::int) \<le> 0" "(0::int) < 2 ^ 31" "(2::nat) < 2 ^ 64" "(4::int) \<noteq> 0"
    by simp_all
  have l: "nat 4 \<le> length ?repl" by simp
  from match_span_substitutable[OF skip_nop_program_halt_inv h(1-3) m h(4)] l
    skip_nop_program_halt_inv m
  show ?thesis by blast
qed

text \<open>
  Claim C2. With two rules, the matcher returns 0 whenever at most one of the slots from
  \<open>pos\<close> up to the logical length holds a real instruction: one real instruction followed
  by nothing but \<open>NOP\<close>s is such a buffer, whatever the two rules are.
\<close>

theorem match_too_few_real:
  assumes "program_inv p" and "0 \<le> pos" and "pos < 2 ^ 31" and "length rules = 2"
    and "length (real_instructions p pos (int (size' p) - pos)) \<le> 1"
  shows "bf_program_match_sequence p rules pos 2 = Inr 0"
proof -
  have "(2 :: nat) < 2 ^ 64" "2 \<le> length rules" using assms(4) by simp_all
  from match_sequence_sound[OF assms(1-3) this]
  obtain n where r: "bf_program_match_sequence p rules pos 2 = Inr n"
    and c: "n \<noteq> 0 \<longrightarrow> match_at p rules pos 2 n"
    by auto
  have "n = 0"
  proof (rule ccontr)
    assume "n \<noteq> 0"
    with c have m: "match_at p rules pos 2 n" by simp
    then have n0: "0 \<le> n" and b: "n \<le> int (size' p) - pos"
      and "list_all2 rule_accepts (take 2 rules) (real_instructions p pos n)"
      by (simp_all add: match_at_def)
    then have two: "length (real_instructions p pos n) = 2"
      using assms(4) by (auto dest: list_all2_lengthD)
    from real_instructions_split[OF n0 b, of p pos] two assms(5) show False by auto
  qed
  with r show ?thesis by simp
qed

theorem match_too_few_real_witness:
  "program_inv trailing_nop_program \<and> length skip_nop_rules = 2 \<and>
   length (real_instructions trailing_nop_program 0 (int (size' trailing_nop_program) - 0))
     \<le> 1 \<and>
   bf_program_match_sequence trailing_nop_program skip_nop_rules 0 2 = Inr 0"
proof -
  have h1: "(0::int) \<le> 0" "(0::int) < 2 ^ 31" by simp_all
  have h2: "length skip_nop_rules = 2" by (simp add: skip_nop_rules_def)
  have h3: "length (real_instructions trailing_nop_program 0
                      (int (size' trailing_nop_program) - 0)) \<le> 1"
    by (simp add: real_instructions_def trailing_nop_program_def is_real_def mk_ins_def
        opcode_defs)
  from match_too_few_real[OF trailing_nop_program_inv h1 h2 h3] trailing_nop_program_inv h2 h3
  show ?thesis by simp
qed

lemma skip_nop_program_appended:
  "bf_program_append_all
     [(None, mk_ins BF_INS_ADD_V 1), (None, mk_ins BF_INS_NOP 0),
      (None, mk_ins BF_INS_NOP 0), (None, mk_ins BF_INS_JMP 5)] empty_program
   = Inr (4, skip_nop_program)"
  by (simp add: bf_program_append_def empty_program_def skip_nop_program_def array_write_def
      eval_nat_numeral)

text \<open>
  The buffer of claim C1, of logical length exactly 4: the scan stops before it reads the
  \<open>JMP\<close> in the last slot, because \<open>pos + mut_size\<close> has reached the logical length, and
  the matcher returns 0.
\<close>

theorem match_skip_nop_length_4:
  "bf_program_match_sequence skip_nop_program skip_nop_rules 0 2 = Inr 0 \<and>
   bf_program_match_sequence skip_nop_program skip_nop_rules 0 2 \<noteq> Inr 4"
  by (simp add: bf_program_match_sequence_def bf_program_match_sequence_loop.simps
      skip_nop_program_def skip_nop_rules_def size_t_add_def size_t_of_int_def
      int_of_size_t_def array_read_def mk_ins_def opcode_defs bf_utils_check_flag_def
      BF_PATTERN_STRICT_def)

text \<open>
  Claim C1, amended. For a well-formed program whose first four slots hold \<open>ADD_V\<close>,
  \<open>NOP\<close>, \<open>NOP\<close>, \<open>JMP\<close> and the two loose rules \<open>ADD_V\<close>, \<open>JMP\<close>, the matcher at
  index 0 returns the span 4, the two \<open>NOP\<close>s counted, when the logical length is at least
  5, and 0 when the logical length is exactly 4.
\<close>

theorem match_skip_nop:
  assumes "program_inv p" and "4 \<le> size' p"
    and "opcode (ir p ! 0) = BF_INS_ADD_V" and "opcode (ir p ! 1) = BF_INS_NOP"
    and "opcode (ir p ! 2) = BF_INS_NOP" and "opcode (ir p ! 3) = BF_INS_JMP"
    and "opcode (instruction r1) = BF_INS_ADD_V"
    and "\<not> bf_utils_check_flag (flags r1) BF_PATTERN_STRICT"
    and "opcode (instruction r2) = BF_INS_JMP"
    and "\<not> bf_utils_check_flag (flags r2) BF_PATTERN_STRICT"
  shows "bf_program_match_sequence p [r1, r2] 0 2 = Inr (if size' p = 4 then 0 else 4)"
proof -
  have le: "size' p \<le> length (ir p)" and cap: "size' p \<le> 65536"
    using assms(1) by (simp_all add: program_inv_def BF_MAX_PROGRAM_SIZE_def)
  have len: "4 \<le> length (ir p)" using le assms(2) by simp
  have conv: "size_t_of_int 2 = 2" "size_t_of_int 3 = 3" "size_t_of_int 4 = 4"
    "size_t_of_int 1 = 1"
    by (simp_all add: size_t_of_int_def)
  have rd: "array_read (ir p) 0 = Inr (ir p ! 0)" "array_read (ir p) 1 = Inr (ir p ! 1)"
    "array_read (ir p) 2 = Inr (ir p ! 2)" "array_read (ir p) 3 = Inr (ir p ! 3)"
    using len by (auto simp: array_read_def)
  have rr: "array_read [r1, r2] 0 = Inr r1" "array_read [r1, r2] 1 = Inr r2"
    by (simp_all add: array_read_def)
  have ne: "BF_INS_ADD_V \<noteq> BF_INS_NOP" "BF_INS_JMP \<noteq> BF_INS_NOP"
    by (simp_all add: opcode_defs)
  have unfold: "bf_program_match_sequence p [r1, r2] 0 2 =
      bf_program_match_sequence_loop p [r1, r2] 0 2 0 2 0"
    using assms(2)
    by (simp add: bf_program_match_sequence_def size_t_add_def size_t_of_int_def
        int_of_size_t_def)
  have s1: "bf_program_match_sequence_loop p [r1, r2] 0 2 0 2 0 =
            bf_program_match_sequence_loop p [r1, r2] 0 2 1 2 1"
    using match_loop_step[of 0 2 0 p "ir p ! 0" "[r1, r2]" 0 r1 2] assms rd rr ne conv
    by simp
  have s2: "bf_program_match_sequence_loop p [r1, r2] 0 2 1 2 1 =
            bf_program_match_sequence_loop p [r1, r2] 0 2 2 3 1"
    using match_loop_step[of 1 2 0 p "ir p ! 1" "[r1, r2]" 1 r2 2] assms rd rr ne conv
    by simp
  have s3: "bf_program_match_sequence_loop p [r1, r2] 0 2 2 3 1 =
            bf_program_match_sequence_loop p [r1, r2] 0 2 3 4 1"
    using match_loop_step[of 2 3 0 p "ir p ! 2" "[r1, r2]" 1 r2 2] assms rd rr ne conv
    by simp
  show ?thesis
  proof (cases "size' p = 4")
    case True
    then have "bf_program_match_sequence_loop p [r1, r2] 0 2 3 4 1 = Inr 0"
      using match_loop_exit[of 3 4 0 p "[r1, r2]" 2 1] conv by simp
    with unfold s1 s2 s3 True show ?thesis by simp
  next
    case False
    then have gt: "4 < size' p" using assms(2) by simp
    have s4: "bf_program_match_sequence_loop p [r1, r2] 0 2 3 4 1 =
              bf_program_match_sequence_loop p [r1, r2] 0 2 4 4 2"
      using match_loop_step[of 3 4 0 p "ir p ! 3" "[r1, r2]" 1 r2 2] assms rd rr ne conv gt
      by simp
    have "bf_program_match_sequence_loop p [r1, r2] 0 2 4 4 2 = Inr 4"
      using match_loop_exit[of 4 4 0 p "[r1, r2]" 2 2] conv by simp
    with unfold s1 s2 s3 s4 False show ?thesis by simp
  qed
qed

theorem match_skip_nop_witness:
  "program_inv skip_nop_program_halt \<and> 4 \<le> size' skip_nop_program_halt \<and>
   bf_program_match_sequence skip_nop_program_halt skip_nop_rules 0 2 = Inr 4"
proof -
  let ?p = skip_nop_program_halt
  let ?r1 = "\<lparr>instruction = mk_ins BF_INS_ADD_V 0, flags = 0\<rparr>"
  let ?r2 = "\<lparr>instruction = mk_ins BF_INS_JMP 0, flags = 0\<rparr>"
  have s: "4 \<le> size' ?p" "size' ?p \<noteq> 4" by (simp_all add: skip_nop_program_halt_def)
  have o: "opcode (ir ?p ! 0) = BF_INS_ADD_V" "opcode (ir ?p ! 1) = BF_INS_NOP"
    "opcode (ir ?p ! 2) = BF_INS_NOP" "opcode (ir ?p ! 3) = BF_INS_JMP"
    by (simp_all add: skip_nop_program_halt_def mk_ins_def)
  have r: "opcode (instruction ?r1) = BF_INS_ADD_V"
    "\<not> bf_utils_check_flag (flags ?r1) BF_PATTERN_STRICT"
    "opcode (instruction ?r2) = BF_INS_JMP"
    "\<not> bf_utils_check_flag (flags ?r2) BF_PATTERN_STRICT"
    by (simp_all add: mk_ins_def bf_utils_check_flag_def BF_PATTERN_STRICT_def)
  from match_skip_nop[OF skip_nop_program_halt_inv s(1) o r] s skip_nop_program_halt_inv
  show ?thesis by (simp add: skip_nop_rules_def)
qed

text \<open>
  Claim C3. On a well-formed program, from a non-negative position and with a rule list
  of at least \<open>size\<close> rules, the matcher always returns, and it returns a span \<open>n\<close>
  other than 0 exactly when that span ends strictly below the logical length, its last slot
  is real, and its real instructions are, one by one, instructions that the rules accept:
  an instruction is accepted by a rule when the opcodes are equal and, if the rule has the
  \<open>STRICT\<close> flag, the arguments are equal too. So whenever an instruction is compared
  with a strict rule it passes only with the rule's opcode and argument, and with a loose
  rule it passes with the rule's opcode and any argument.
\<close>

theorem match_sequence_accepts:
  assumes "program_inv p" and "0 \<le> pos" and "pos < 2 ^ 31" and "sz < 2 ^ 64"
    and "sz \<le> length rules"
  shows "(\<exists>k. bf_program_match_sequence p rules pos sz = Inr k) \<and>
         ((bf_program_match_sequence p rules pos sz = Inr n \<and> n \<noteq> 0) \<longleftrightarrow>
          (0 < n \<and> pos + n < int (size' p) \<and>
           opcode (ir p ! nat (pos + n - 1)) \<noteq> BF_INS_NOP \<and>
           list_all2
             (\<lambda>rule instr.
                opcode instr = opcode (instruction rule) \<and>
                (bf_utils_check_flag (flags rule) BF_PATTERN_STRICT \<longrightarrow>
                   argument instr = argument (instruction rule)))
             (take sz rules) (real_instructions p pos n)))"
proof -
  have acc: "rule_accepts = (\<lambda>rule instr.
               opcode instr = opcode (instruction rule) \<and>
               (bf_utils_check_flag (flags rule) BF_PATTERN_STRICT \<longrightarrow>
                  argument instr = argument (instruction rule)))"
    by (simp add: rule_accepts_def fun_eq_iff)
  have "(bf_program_match_sequence p rules pos sz = Inr n \<and> n \<noteq> 0) \<longleftrightarrow>
          match_at p rules pos sz n"
  proof
    assume "bf_program_match_sequence p rules pos sz = Inr n \<and> n \<noteq> 0"
    with match_sequence_sound[OF assms] show "match_at p rules pos sz n" by auto
  next
    assume m: "match_at p rules pos sz n"
    from match_sequence_complete[OF assms(1,2,5) m] m
    show "bf_program_match_sequence p rules pos sz = Inr n \<and> n \<noteq> 0"
      by (simp add: match_at_def)
  qed
  moreover from match_sequence_sound[OF assms]
  have "\<exists>k. bf_program_match_sequence p rules pos sz = Inr k" by blast
  ultimately show ?thesis
    by (simp add: match_at_def is_real_def acc)
qed

theorem match_sequence_accepts_witness:
  "program_inv (add_v_program 3) \<and> program_inv (add_v_program 4) \<and>
   bf_program_match_sequence (add_v_program 3)
     [\<lparr>instruction = mk_ins BF_INS_ADD_V 3, flags = BF_PATTERN_STRICT\<rparr>] 0 1 = Inr 1 \<and>
   bf_program_match_sequence (add_v_program 4)
     [\<lparr>instruction = mk_ins BF_INS_ADD_V 3, flags = BF_PATTERN_STRICT\<rparr>] 0 1 \<noteq> Inr 1 \<and>
   bf_program_match_sequence (add_v_program 4)
     [\<lparr>instruction = mk_ins BF_INS_ADD_V 3, flags = 0\<rparr>] 0 1 = Inr 1 \<and>
   bf_program_match_sequence (add_v_program 3)
     [\<lparr>instruction = mk_ins BF_INS_SUB_V 3, flags = 0\<rparr>] 0 1 \<noteq> Inr 1"
proof -
  have h: "(0::int) \<le> 0" "(0::int) < 2 ^ 31" "(1::nat) < 2 ^ 64" "1 \<le> length [r]"
    for r :: bf_pattern_rule
    by simp_all
  have s: "0 + 1 < int (size' (add_v_program a))"
    "opcode (ir (add_v_program a) ! nat (0 + 1 - 1)) \<noteq> BF_INS_NOP"
    "real_instructions (add_v_program a) 0 1 = [mk_ins BF_INS_ADD_V a]" for a
    by (simp_all add: add_v_program_def real_instructions_def is_real_def mk_ins_def
        opcode_defs)
  have f: "bf_utils_check_flag BF_PATTERN_STRICT BF_PATTERN_STRICT"
    "\<not> bf_utils_check_flag 0 BF_PATTERN_STRICT"
    by (simp_all add: bf_utils_check_flag_def BF_PATTERN_STRICT_def)
  have d: "BF_INS_ADD_V \<noteq> BF_INS_SUB_V" by (simp add: opcode_defs)
  note t = match_sequence_accepts[OF add_v_program_inv h, where n = 1, THEN conjunct2]
  from t[of 3 "\<lparr>instruction = mk_ins BF_INS_ADD_V 3, flags = BF_PATTERN_STRICT\<rparr>"]
    t[of 4 "\<lparr>instruction = mk_ins BF_INS_ADD_V 3, flags = BF_PATTERN_STRICT\<rparr>"]
    t[of 4 "\<lparr>instruction = mk_ins BF_INS_ADD_V 3, flags = 0\<rparr>"]
    t[of 3 "\<lparr>instruction = mk_ins BF_INS_SUB_V 3, flags = 0\<rparr>"]
    s f d add_v_program_inv
  show ?thesis by (simp add: mk_ins_def)
qed

section \<open>The invariant\<close>

text \<open>
  Claim C7. A freshly created program satisfies \<open>length \<le> capacity \<le> 65536\<close>. From a
  well-formed program, grow and append return a well-formed program whatever
  \<^verbatim>\<open>realloc\<close> does, and so does substitute whenever it returns; the matcher returns a
  number only and has no program to change. Once 65536 instructions are stored, append
  returns false. A run of appends stores exactly as many instructions as calls returned
  true and never takes the length past 65536, so of more than \<open>65536 - length\<close> calls
  at least one is refused.
\<close>

theorem invariant_preserved:
  "(bf_program_create a b = Some p0 \<longrightarrow>
      program_inv p0 \<and> size' p0 \<le> capacity p0 \<and> capacity p0 \<le> 65536) \<and>
   (program_inv p \<longrightarrow>
      size' p \<le> capacity p \<and> capacity p \<le> 65536 \<and>
      program_inv (snd (bf_program_grow heap p)) \<and>
      (\<exists>ok p'. bf_program_append heap p ins = Inr (ok, p') \<and> program_inv p') \<and>
      (\<forall>ok p'. bf_program_substitute p repl pos sz = Inr (ok, p') \<longrightarrow> program_inv p') \<and>
      (size' p = 65536 \<longrightarrow> bf_program_append heap p ins = Inr (False, p)) \<and>
      (\<exists>n q. bf_program_append_all xs p = Inr (n, q) \<and> program_inv q \<and>
             size' q = size' p + n \<and> size' q \<le> 65536 \<and> n \<le> length xs))"
proof (intro conjI impI allI)
  assume "bf_program_create a b = Some p0"
  from create_inv[OF this]
  show "program_inv p0" "size' p0 \<le> capacity p0" "capacity p0 \<le> 65536"
    by simp_all
next
  assume "program_inv p"
  then show "size' p \<le> capacity p" "capacity p \<le> 65536"
    by (simp_all add: program_inv_def BF_MAX_PROGRAM_SIZE_def)
next
  assume "program_inv p"
  then show "program_inv (snd (bf_program_grow heap p))" by (rule grow_inv)
next
  assume "program_inv p"
  from append_inv[OF this, of heap ins]
  show "\<exists>ok p'. bf_program_append heap p ins = Inr (ok, p') \<and> program_inv p'" by blast
next
  fix ok p'
  assume "program_inv p" "bf_program_substitute p repl pos sz = Inr (ok, p')"
  then show "program_inv p'" using substitute_inv by blast
next
  assume i: "program_inv p" and "size' p = 65536"
  then have "size' p = capacity p" "capacity p = 65536"
    by (simp_all add: program_inv_def BF_MAX_PROGRAM_SIZE_def)
  with i show "bf_program_append heap p ins = Inr (False, p)"
    by (rule append_full_ceiling)
next
  assume "program_inv p"
  from append_all_inv[OF this, of xs]
  obtain n q where r: "bf_program_append_all xs p = Inr (n, q)" and iq: "program_inv q"
    and s: "size' q = size' p + n" and l: "n \<le> length xs"
    by blast
  from iq have "size' q \<le> 65536"
    by (simp add: program_inv_def BF_MAX_PROGRAM_SIZE_def)
  with r iq s l
  show "\<exists>n q. bf_program_append_all xs p = Inr (n, q) \<and> program_inv q \<and>
             size' q = size' p + n \<and> size' q \<le> 65536 \<and> n \<le> length xs"
    by blast
qed

theorem invariant_preserved_witness:
  "bf_program_create True True = Some empty_program \<and>
   program_inv empty_program \<and>
   program_inv (snd (bf_program_grow zero_heap empty_program)) \<and>
   (\<exists>ok p'. bf_program_append zero_heap empty_program (mk_ins BF_INS_INC_V 1) = Inr (ok, p')
       \<and> program_inv p') \<and>
   program_inv full_program \<and> size' full_program = 65536 \<and>
   bf_program_append zero_heap full_program (mk_ins BF_INS_INC_V 1) = Inr (False, full_program) \<and>
   (\<exists>n q. bf_program_append_all [(zero_heap, mk_ins BF_INS_INC_V 1)] full_program = Inr (n, q) \<and>
       program_inv q \<and> size' q = 65536 + n \<and> size' q \<le> 65536)"
proof -
  note c = create_empty_program
  have f: "size' full_program = 65536" by (simp add: full_program_def)
  note t1 = invariant_preserved[where a = True and b = True and ?p0.0 = empty_program
      and p = empty_program and heap = zero_heap and ins = "mk_ins BF_INS_INC_V 1"]
  note t2 = invariant_preserved[where a = True and b = True and ?p0.0 = empty_program
      and p = full_program and heap = zero_heap and ins = "mk_ins BF_INS_INC_V 1"
      and xs = "[(zero_heap, mk_ins BF_INS_INC_V 1)]"]
  from t1 c have i: "program_inv empty_program" by blast
  from t1 i have g: "program_inv (snd (bf_program_grow zero_heap empty_program))"
    and a: "\<exists>ok p'. bf_program_append zero_heap empty_program (mk_ins BF_INS_INC_V 1)
              = Inr (ok, p') \<and> program_inv p'"
    by blast+
  from t2 full_program_inv f
  have r: "bf_program_append zero_heap full_program (mk_ins BF_INS_INC_V 1)
             = Inr (False, full_program)"
    and m: "\<exists>n q. bf_program_append_all [(zero_heap, mk_ins BF_INS_INC_V 1)] full_program
                = Inr (n, q) \<and> program_inv q \<and> size' q = size' full_program + n \<and>
                  size' q \<le> 65536 \<and> n \<le> length [(zero_heap, mk_ins BF_INS_INC_V 1)]"
    by blast+
  from m f have m': "\<exists>n q. bf_program_append_all [(zero_heap, mk_ins BF_INS_INC_V 1)] full_program
       = Inr (n, q) \<and> program_inv q \<and> size' q = 65536 + n \<and> size' q \<le> 65536"
    by auto
  from c i g a full_program_inv f r m' show ?thesis by blast
qed

section \<open>Mnemonic lookup\<close>

lemma map_ins_name_values:
  "bf_program_map_ins_name BF_INS_NOP = ''NOP'' \<and>
   bf_program_map_ins_name BF_INS_IN = ''IN'' \<and>
   bf_program_map_ins_name BF_INS_OUT = ''OUT'' \<and>
   bf_program_map_ins_name BF_INS_INC_V = ''INC_V'' \<and>
   bf_program_map_ins_name BF_INS_DEC_V = ''DEC_V'' \<and>
   bf_program_map_ins_name BF_INS_ADD_V = ''ADD_V'' \<and>
   bf_program_map_ins_name BF_INS_SUB_V = ''SUB_V'' \<and>
   bf_program_map_ins_name BF_INS_INC_P = ''INC_P'' \<and>
   bf_program_map_ins_name BF_INS_DEC_P = ''DEC_P'' \<and>
   bf_program_map_ins_name BF_INS_ADD_P = ''ADD_P'' \<and>
   bf_program_map_ins_name BF_INS_SUB_P = ''SUB_P'' \<and>
   bf_program_map_ins_name BF_INS_BRANCH_Z = ''BRANCH_Z'' \<and>
   bf_program_map_ins_name BF_INS_BRANCH_NZ = ''BRANCH_NZ'' \<and>
   bf_program_map_ins_name BF_INS_JMP = ''JMP'' \<and>
   bf_program_map_ins_name BF_INS_HALT = ''HALT'' \<and>
   bf_program_map_ins_name BF_INS_CLEAR = ''CLEAR'' \<and>
   bf_program_map_ins_name BF_INS_COPY = ''COPY'' \<and>
   bf_program_map_ins_name BF_INS_MUL = ''MUL''"
  by (simp add: bf_program_map_ins_name_def opcode_defs)

text \<open>
  Claim C9. The lookup is a total function of the tag. The eighteen enumerators are
  pairwise different; each of them is mapped to its own mnemonic, the name of the
  enumerator without the prefix \<^verbatim>\<open>BF_INS_\<close>, which is neither empty nor the sentinel, and
  no two of them share a name; every other value of the tag is mapped to the sentinel
  \<open>''?''\<close>.
\<close>

theorem map_ins_name_total:
  "length defined_opcodes = 18 \<and> distinct defined_opcodes \<and>
   bf_program_map_ins_name BF_INS_NOP = ''NOP'' \<and>
   bf_program_map_ins_name BF_INS_IN = ''IN'' \<and>
   bf_program_map_ins_name BF_INS_OUT = ''OUT'' \<and>
   bf_program_map_ins_name BF_INS_INC_V = ''INC_V'' \<and>
   bf_program_map_ins_name BF_INS_DEC_V = ''DEC_V'' \<and>
   bf_program_map_ins_name BF_INS_ADD_V = ''ADD_V'' \<and>
   bf_program_map_ins_name BF_INS_SUB_V = ''SUB_V'' \<and>
   bf_program_map_ins_name BF_INS_INC_P = ''INC_P'' \<and>
   bf_program_map_ins_name BF_INS_DEC_P = ''DEC_P'' \<and>
   bf_program_map_ins_name BF_INS_ADD_P = ''ADD_P'' \<and>
   bf_program_map_ins_name BF_INS_SUB_P = ''SUB_P'' \<and>
   bf_program_map_ins_name BF_INS_BRANCH_Z = ''BRANCH_Z'' \<and>
   bf_program_map_ins_name BF_INS_BRANCH_NZ = ''BRANCH_NZ'' \<and>
   bf_program_map_ins_name BF_INS_JMP = ''JMP'' \<and>
   bf_program_map_ins_name BF_INS_HALT = ''HALT'' \<and>
   bf_program_map_ins_name BF_INS_CLEAR = ''CLEAR'' \<and>
   bf_program_map_ins_name BF_INS_COPY = ''COPY'' \<and>
   bf_program_map_ins_name BF_INS_MUL = ''MUL'' \<and>
   distinct (map bf_program_map_ins_name defined_opcodes) \<and>
   (\<forall>op \<in> set defined_opcodes.
      bf_program_map_ins_name op \<noteq> [] \<and> bf_program_map_ins_name op \<noteq> ''?'') \<and>
   (\<forall>op. op \<notin> set defined_opcodes \<longrightarrow> bf_program_map_ins_name op = ''?'')"
proof -
  have d: "length defined_opcodes = 18 \<and> distinct defined_opcodes"
    by (simp add: defined_opcodes_def opcode_defs)
  have n: "distinct (map bf_program_map_ins_name defined_opcodes)"
    using map_ins_name_values by (simp add: defined_opcodes_def)
  have s: "\<forall>op \<in> set defined_opcodes.
      bf_program_map_ins_name op \<noteq> [] \<and> bf_program_map_ins_name op \<noteq> ''?''"
    using map_ins_name_values by (simp add: defined_opcodes_def)
  have u: "\<forall>op. op \<notin> set defined_opcodes \<longrightarrow> bf_program_map_ins_name op = ''?''"
    by (simp add: defined_opcodes_def bf_program_map_ins_name_def)
  from d map_ins_name_values n s u show ?thesis by blast
qed

theorem map_ins_name_total_witness:
  "BF_INS_ADD_V \<in> set defined_opcodes \<and>
   bf_program_map_ins_name BF_INS_ADD_V = ''ADD_V'' \<and>
   bf_program_map_ins_name BF_INS_ADD_V \<noteq> [] \<and>
   bf_program_map_ins_name BF_INS_ADD_V \<noteq> ''?'' \<and>
   (99 :: bf_opcode) \<notin> set defined_opcodes \<and> bf_program_map_ins_name 99 = ''?''"
proof -
  have d: "BF_INS_ADD_V \<in> set defined_opcodes"
    by (simp add: defined_opcodes_def)
  have u: "(99 :: bf_opcode) \<notin> set defined_opcodes"
    by (simp add: defined_opcodes_def opcode_defs)
  from map_ins_name_total d u show ?thesis
    by blast
qed

end
